theory Spec2Isabelle
  imports Complex_Main
begin

section \<open>Strings and paths\<close>

text \<open>
  The detection script \<^verbatim>\<open>detect_goose.py\<close> works on Python \<^verbatim>\<open>str\<close> values. A
  \<^typ>\<open>string\<close> is read here as a sequence of code points below 256 (ASCII and Latin-1),
  one \<^typ>\<open>char\<close> per code point, and the string methods the script calls are written
  out for that range.
\<close>

definition startswith :: "string \<Rightarrow> string \<Rightarrow> bool" where
  "startswith s p = (take (length p) s = p)"

definition endswith :: "string \<Rightarrow> string \<Rightarrow> bool" where
  "endswith s p = (length p \<le> length s \<and> drop (length s - length p) s = p)"

definition startswith_any :: "string \<Rightarrow> string list \<Rightarrow> bool" where
  "startswith_any s ps = list_ex (startswith s) ps"

text \<open>\<^verbatim>\<open>str.lower\<close>: the upper-case letters below 256 are A to Z and the Latin-1 block
  0xC0 to 0xDE without the multiplication sign 0xD7; each is 32 below its lower-case form.\<close>

definition lower_char :: "char \<Rightarrow> char" where
  "lower_char c =
     (let n = (of_char c :: nat)
      in if (65 \<le> n \<and> n \<le> 90) \<or> (192 \<le> n \<and> n \<le> 222 \<and> n \<noteq> 215)
         then char_of (n + 32) else c)"

definition lower :: "string \<Rightarrow> string" where
  "lower s = map lower_char s"

text \<open>\<^verbatim>\<open>str.isnumeric\<close>: non-empty and every character numeric. Below 256 the numeric
  characters are the digits, the superscripts 0xB2, 0xB3, 0xB9 and the fractions 0xBC to 0xBE.\<close>

definition isnumeric_char :: "char \<Rightarrow> bool" where
  "isnumeric_char c =
     (let n = (of_char c :: nat)
      in (48 \<le> n \<and> n \<le> 57) \<or> n = 178 \<or> n = 179 \<or> n = 185 \<or> (188 \<le> n \<and> n \<le> 190))"

definition isnumeric :: "string \<Rightarrow> bool" where
  "isnumeric s = (s \<noteq> [] \<and> list_all isnumeric_char s)"

text \<open>
  \<^verbatim>\<open>pathlib.Path\<close> on a POSIX system: the parts of a path are its \<^verbatim>\<open>/\<close>-separated
  components without the empty ones and the \<^verbatim>\<open>.\<close> ones; \<^verbatim>\<open>name\<close> is the last part
  (empty when there is none); \<^verbatim>\<open>suffix\<close> starts at the last dot of the name when that dot
  is neither its first nor its last character; \<^verbatim>\<open>stem\<close> is the name without the suffix.
\<close>

fun split_slash :: "string \<Rightarrow> string \<Rightarrow> string list" where
  "split_slash acc [] = [rev acc]"
| "split_slash acc (c # cs) =
     (if c = CHR ''/'' then rev acc # split_slash [] cs else split_slash (c # acc) cs)"

definition path_parts :: "string \<Rightarrow> string list" where
  "path_parts s = filter (\<lambda>p. p \<noteq> [] \<and> p \<noteq> ''.'') (split_slash [] s)"

text \<open>
  The root of a path is \<^verbatim>\<open>//\<close> for exactly two leading slashes and \<^verbatim>\<open>/\<close> for any
  other number of them. \<^verbatim>\<open>str(Path(s))\<close> is the root followed by the parts joined with
  slashes, and \<^verbatim>\<open>.\<close> when there is neither; two paths are equal when these strings are.
\<close>

definition path_root :: "string \<Rightarrow> string" where
  "path_root s =
     (if startswith s ''//'' \<and> \<not> startswith s ''///'' then ''//''
      else if startswith s ''/'' then ''/''
      else [])"

fun join_slash :: "string list \<Rightarrow> string" where
  "join_slash [] = []"
| "join_slash [c] = c"
| "join_slash (c # cs) = c @ ''/'' @ join_slash cs"

definition format_path :: "string \<Rightarrow> string list \<Rightarrow> string" where
  "format_path rt parts = (if rt = [] \<and> parts = [] then ''.'' else rt @ join_slash parts)"

definition path_str :: "string \<Rightarrow> string" where
  "path_str s = format_path (path_root s) (path_parts s)"

definition path_name :: "string \<Rightarrow> string" where
  "path_name s = (case rev (path_parts s) of [] \<Rightarrow> [] | n # _ \<Rightarrow> n)"

text \<open>\<^verbatim>\<open>str.rfind('.')\<close>: the index of the last dot, if any.\<close>

fun rfind_dot :: "string \<Rightarrow> nat option" where
  "rfind_dot [] = None"
| "rfind_dot (c # cs) =
     (case rfind_dot cs of
        Some i \<Rightarrow> Some (Suc i)
      | None \<Rightarrow> if c = CHR ''.'' then Some 0 else None)"

definition name_suffix :: "string \<Rightarrow> string" where
  "name_suffix n =
     (case rfind_dot n of
        None \<Rightarrow> []
      | Some i \<Rightarrow> if 0 < i \<and> Suc i < length n then drop i n else [])"

definition path_suffix :: "string \<Rightarrow> string" where
  "path_suffix s = name_suffix (path_name s)"

definition path_stem :: "string \<Rightarrow> string" where
  "path_stem s =
     (let n = path_name s in take (length n - length (name_suffix n)) n)"

section \<open>Source classifier\<close>

text \<open>
  The first lines of \<^verbatim>\<open>run\<close> derive flags from the text of \<^verbatim>\<open>source\<close> and choose
  one of three data loaders. \<^verbatim>\<open>IMG_FORMATS + VID_FORMATS\<close> is imported from the data
  loading module; it is the parameter \<open>formats\<close> here.
\<close>

datatype loader = LoadStreams | LoadScreenshots | LoadImages

definition is_file :: "string list \<Rightarrow> string \<Rightarrow> bool" where
  "is_file formats source = (drop 1 (path_suffix source) \<in> set formats)"

definition is_url :: "string \<Rightarrow> bool" where
  "is_url source =
     startswith_any (lower source) [''rtsp://'', ''rtmp://'', ''http://'', ''https://'']"

definition webcam :: "string list \<Rightarrow> string \<Rightarrow> bool" where
  "webcam formats source =
     (isnumeric source \<or> endswith source ''.streams''
      \<or> (is_url source \<and> \<not> is_file formats source))"

definition screenshot :: "string \<Rightarrow> bool" where
  "screenshot source = startswith (lower source) ''screen''"

definition select_loader :: "string list \<Rightarrow> string \<Rightarrow> loader" where
  "select_loader formats source =
     (if webcam formats source then LoadStreams
      else if screenshot source then LoadScreenshots
      else LoadImages)"

text \<open>
  The rules of the classifier as the specification words them, on the textual form of the
  descriptor alone: a numeric string is a non-empty string of numeric characters, a suffix
  or a prefix is a decomposition of the string, and the extension is what follows the dot
  of the last path component's suffix.
\<close>

definition numeric_string :: "string \<Rightarrow> bool" where
  "numeric_string s = (\<exists>c cs. s = c # cs \<and> list_all isnumeric_char s)"

definition has_suffix :: "string \<Rightarrow> string \<Rightarrow> bool" where
  "has_suffix s suf = (\<exists>pre. s = pre @ suf)"

definition has_prefix :: "string \<Rightarrow> string \<Rightarrow> bool" where
  "has_prefix s pre = (\<exists>rest. s = pre @ rest)"

definition network_url :: "string \<Rightarrow> bool" where
  "network_url s =
     (has_prefix (lower s) ''rtsp://'' \<or> has_prefix (lower s) ''rtmp://''
      \<or> has_prefix (lower s) ''http://'' \<or> has_prefix (lower s) ''https://'')"

definition known_extension :: "string list \<Rightarrow> string \<Rightarrow> bool" where
  "known_extension formats s = (\<exists>f. f \<in> set formats \<and> tl (path_suffix s) = f)"

definition spec_mode :: "string list \<Rightarrow> string \<Rightarrow> loader" where
  "spec_mode formats s =
     (if numeric_string s \<or> has_suffix s ''.streams''
         \<or> (network_url s \<and> \<not> known_extension formats s)
      then LoadStreams
      else if has_prefix (lower s) ''screen'' then LoadScreenshots
      else LoadImages)"


section \<open>Values of the run\<close>

text \<open>
  Exceptions are values. \<open>IndexError\<close> is a list index out of range, \<open>LookupError\<close> a class
  index that the name table \<^verbatim>\<open>names\<close> does not have (a \<^verbatim>\<open>KeyError\<close> or an
  \<^verbatim>\<open>IndexError\<close>, after the table's type), \<open>AttributeError\<close> a method call on
  \<^verbatim>\<open>None\<close>, \<open>ValueError\<close> the one \<^verbatim>\<open>with_suffix\<close> raises on an empty name, and
  \<open>Raised\<close> whatever the opaque preprocessing, model call or suppression raises.
\<close>

datatype error =
  IndexError | LookupError | AttributeError | ValueError | ZeroDivisionError | Raised string

text \<open>An entry of \<^verbatim>\<open>gNum\<close>: the integer it starts as, or the string \<^verbatim>\<open>f"{n}"\<close>.\<close>

datatype jval = JInt int | JStr string

type_synonym box = "rat \<times> rat \<times> rat \<times> rat"

text \<open>One row of \<^verbatim>\<open>det\<close>: the box corners, the confidence and the class index.\<close>

record detection =
  xyxy :: box
  conf :: rat
  cls :: nat

text \<open>
  An original frame \<^verbatim>\<open>im0\<close>: its shape, an identifier of its pixel content, and the
  boxes the annotator has drawn on it, oldest first (box, label, class of the colour).
\<close>

record image =
  height :: nat
  width :: nat
  pixels :: nat
  drawn :: "(box \<times> string option \<times> nat) list"

text \<open>What \<^verbatim>\<open>vid_cap.get\<close> answers for the three properties the script reads.\<close>

record capture =
  CAP_PROP_FPS :: rat
  CAP_PROP_FRAME_WIDTH :: rat
  CAP_PROP_FRAME_HEIGHT :: rat

datatype dataset_mode = ImageMode | VideoMode | StreamMode

text \<open>
  One step of the data loader, \<^verbatim>\<open>path, im, im0s, vid_cap, s\<close>, with the attributes of
  the loader the loop body reads at that step (\<^verbatim>\<open>dataset.mode\<close>, and
  \<^verbatim>\<open>dataset.count\<close> or \<^verbatim>\<open>dataset.frame\<close>). \<^verbatim>\<open>LoadStreams\<close> yields a list of
  paths and a list of frames; the single path and frame of the other loaders are one-element
  lists here. \<open>it_pred\<close> is the outcome of the three timed phases on \<^verbatim>\<open>im\<close>
  (preprocessing, the model call, non-maximum suppression with the rescaling of the boxes
  to the original frame): the exception one of them raises, or the detections of every
  image of the batch.
\<close>

record item =
  it_path :: "string list"
  it_im0s :: "image list"
  it_vid_cap :: "capture option"
  it_mode :: dataset_mode
  it_frame :: nat
  it_pred :: "error + detection list list"

text \<open>The data loader: \<^verbatim>\<open>len(dataset)\<close> and the finite sequence of steps it yields.\<close>

record dataset =
  len_dataset :: nat
  items :: "item list"

text \<open>
  The arguments of \<^verbatim>\<open>run\<close> the loop body reads, the class names of the loaded model,
  and what the run takes from its environment: the imported format list, the directory
  \<^verbatim>\<open>increment_path\<close> returned (a normalised path), the current directory, the answer of
  \<^verbatim>\<open>check_imshow\<close>, and whether \<^verbatim>\<open>platform.system()\<close> is Linux.
\<close>

record config =
  source :: string
  view_img :: bool
  save_txt :: bool
  save_format :: int
  save_csv :: bool
  save_conf :: bool
  save_crop :: bool
  nosave :: bool
  hide_labels :: bool
  hide_conf :: bool
  names :: "string list"
  formats :: "string list"
  save_dir :: string
  cwd :: string
  check_imshow :: bool
  linux :: bool

text \<open>Effects on the outside world other than the CSV file, in the order they happen.\<close>

datatype event =
    TxtWrite string "rat list"
  | SaveOneBox box image string
  | NamedWindow string
  | Imshow string image
  | Imwrite string image
  | WriterOpen nat string rat int int
  | WriterRelease nat
  | WriterWrite nat image

text \<open>
  The mutable state of the loop: the locals \<^verbatim>\<open>seen\<close>, \<^verbatim>\<open>gNum\<close>, \<^verbatim>\<open>windows\<close>,
  \<^verbatim>\<open>vid_path\<close> and \<^verbatim>\<open>vid_writer\<close> (a writer object is the number it was created
  under, \<open>next_writer\<close> the number of the next one), the rows of
  \<^verbatim>\<open>predictions.csv\<close> (\<open>None\<close> while the file does not exist) and the trace of events.
\<close>

record state =
  seen :: nat
  gNum :: "jval list"
  windows :: "string list"
  vid_path :: "string option list"
  vid_writer :: "nat option list"
  next_writer :: nat
  csv_file :: "string list list option"
  trace :: "event list"

text \<open>The printed JSON object.\<close>

record summary =
  imagePath :: string
  counts :: "jval list"

section \<open>Formatting\<close>

definition digit_char :: "nat \<Rightarrow> char" where
  "digit_char d = char_of (48 + d)"

text \<open>The decimal numeral of a count, as \<^verbatim>\<open>f"{n}"\<close> prints it.\<close>

fun show_nat :: "nat \<Rightarrow> string" where
  "show_nat n = (if n < 10 then [digit_char n] else show_nat (n div 10) @ [digit_char (n mod 10)])"

declare show_nat.simps [simp del]

text \<open>
  \<^verbatim>\<open>f"{x:.2f}"\<close> on the exact value of the float: the nearest multiple of 0.01, a tie
  going to the even one, printed with two decimals.
\<close>

definition round_half_even :: "rat \<Rightarrow> int" where
  "round_half_even q =
     (let f = \<lfloor>q\<rfloor>; r = q - of_int f
      in if r < 1 / 2 then f else if 1 / 2 < r then f + 1 else if even f then f else f + 1)"

definition fmt_2f :: "rat \<Rightarrow> string" where
  "fmt_2f x =
     (let r = nat (round_half_even (\<bar>x\<bar> * 100))
      in (if x < 0 then ''-'' else []) @ show_nat (r div 100) @ ''.''
         @ [digit_char (r mod 100 div 10), digit_char (r mod 10)])"

text \<open>\<^verbatim>\<open>int(x)\<close> on a float truncates towards zero.\<close>

definition py_int :: "rat \<Rightarrow> int" where
  "py_int x = (if 0 \<le> x then \<lfloor>x\<rfloor> else \<lceil>x\<rceil>)"

section \<open>Paths of the results\<close>

text \<open>
  \<^verbatim>\<open>str(Path(d) / n)\<close>: a segment \<open>n\<close> with a root replaces \<open>d\<close>; otherwise the parts of
  \<open>n\<close> follow the parts of \<open>d\<close> under the root of \<open>d\<close>.
\<close>

definition path_join :: "string \<Rightarrow> string \<Rightarrow> string" where
  "path_join d n =
     (if path_root n \<noteq> [] then path_str n
      else format_path (path_root d) (path_parts d @ path_parts n))"

text \<open>\<^verbatim>\<open>str(Path(p).with_suffix(suf))\<close> for a normalised \<open>p\<close>; an empty name raises.\<close>

definition with_suffix :: "string \<Rightarrow> string \<Rightarrow> error + string" where
  "with_suffix p suf =
     (if path_name p = [] then Inl ValueError
      else Inr (take (length p - length (path_suffix p)) p @ suf))"

text \<open>\<^verbatim>\<open>os.path.normpath\<close> and \<^verbatim>\<open>os.path.abspath\<close> of \<^verbatim>\<open>posixpath\<close>.\<close>

fun norm_comps :: "bool \<Rightarrow> string list \<Rightarrow> string list \<Rightarrow> string list" where
  "norm_comps rooted new [] = rev new"
| "norm_comps rooted new (c # cs) =
     (if c = [] \<or> c = ''.'' then norm_comps rooted new cs
      else if c \<noteq> ''..'' \<or> (\<not> rooted \<and> new = []) \<or> (new \<noteq> [] \<and> hd new = ''..'')
           then norm_comps rooted (c # new) cs
      else if new \<noteq> [] then norm_comps rooted (tl new) cs
      else norm_comps rooted new cs)"

definition normpath :: "string \<Rightarrow> string" where
  "normpath p =
     (if p = [] then ''.''
      else
        let initial_slashes =
              (if startswith p ''/'' then
                 (if startswith p ''//'' \<and> \<not> startswith p ''///'' then 2 else 1)
               else (0::nat));
            comps = norm_comps (0 < initial_slashes) [] (split_slash [] p);
            joined = replicate initial_slashes CHR ''/'' @ join_slash comps
        in if joined = [] then ''.'' else joined)"

definition abspath :: "string \<Rightarrow> string \<Rightarrow> string" where
  "abspath cur p =
     (if startswith p ''/'' then normpath p
      else normpath (if cur = [] \<or> endswith cur ''/'' then cur @ p else cur @ ''/'' @ p))"

section \<open>The CSV sink\<close>

text \<open>
  \<^verbatim>\<open>write_to_csv\<close> opens the file for appending, which creates it when it is absent, and
  only then asks whether it is a file, to decide on the header. The rows of the file are
  kept as lists of fields.
\<close>

definition open_append :: "string list list option \<Rightarrow> string list list option" where
  "open_append f = (case f of None \<Rightarrow> Some [] | Some rows \<Rightarrow> Some rows)"

definition fs_is_file :: "string list list option \<Rightarrow> bool" where
  "fs_is_file f = (f \<noteq> None)"

definition writerow :: "string list \<Rightarrow> string list list option \<Rightarrow> string list list option" where
  "writerow r f = map_option (\<lambda>rows. rows @ [r]) f"

definition fieldnames :: "string list" where
  "fieldnames = [''Image Name'', ''Prediction'', ''Confidence'']"

definition write_to_csv ::
  "string list list option \<Rightarrow> string \<Rightarrow> string \<Rightarrow> string \<Rightarrow> string list list option" where
  "write_to_csv f image_name prediction confidence =
     (let f1 = open_append f;
          f2 = (if \<not> fs_is_file f1 then writerow fieldnames f1 else f1)
      in writerow [image_name, prediction, confidence] f2)"

section \<open>The body of the loop\<close>

definition nth_err :: "'a list \<Rightarrow> nat \<Rightarrow> 'a option" where
  "nth_err xs i = (if i < length xs then Some (xs ! i) else None)"

text \<open>\<^verbatim>\<open>det[:, 5].unique()\<close>: the distinct classes, ascending.\<close>

definition unique_classes :: "detection list \<Rightarrow> nat list" where
  "unique_classes det = sort (remdups (map cls det))"

definition count_class :: "detection list \<Rightarrow> nat \<Rightarrow> nat" where
  "count_class det c = length (filter (\<lambda>d. cls d = c) det)"

text \<open>
  The loop over the distinct classes: \<^verbatim>\<open>gNum[int(c)] = f"{n}"\<close>, then the lookup of
  \<^verbatim>\<open>names[int(c)]\<close> for the log string.
\<close>

fun count_classes ::
  "string list \<Rightarrow> detection list \<Rightarrow> nat list \<Rightarrow> jval list \<Rightarrow> error + jval list" where
  "count_classes nms det [] g = Inr g"
| "count_classes nms det (c # cs) g =
     (if c < length g then
        (if c < length nms
         then count_classes nms det cs (g[c := JStr (show_nat (count_class det c))])
         else Inl LookupError)
      else Inl IndexError)"

text \<open>
  Modelled from the spec: \<^verbatim>\<open>xyxy2xywh\<close> of \<^verbatim>\<open>utils.general\<close> is not among the
  sources; the specification calls its result the centre, width and height of the box.
\<close>

definition xyxy2xywh :: "box \<Rightarrow> box" where
  "xyxy2xywh b =
     (case b of (x1, y1, x2, y2) \<Rightarrow> ((x1 + x2) / 2, (y1 + y2) / 2, x2 - x1, y2 - y1))"

text \<open>The numbers of one label line; the arithmetic of the tensors is taken as exact.\<close>

definition label_line :: "config \<Rightarrow> image \<Rightarrow> detection \<Rightarrow> rat list" where
  "label_line cfg im0 d =
     (let w = of_nat (width im0); h = of_nat (height im0);
          coords =
            (case (if save_format cfg = 0 then xyxy2xywh (xyxy d) else xyxy d) of
               (a, b, c, e) \<Rightarrow> [a / w, b / h, c / w, e / h])
      in if save_conf cfg then of_nat (cls d) # coords @ [conf d] else of_nat (cls d) # coords)"

definition box_label :: "image \<Rightarrow> box \<Rightarrow> string option \<Rightarrow> nat \<Rightarrow> image" where
  "box_label im b label c = im\<lparr>drawn := drawn im @ [(b, label, c)]\<rparr>"

definition log_event :: "event \<Rightarrow> state \<Rightarrow> state" where
  "log_event e st = st\<lparr>trace := trace st @ [e]\<rparr>"

text \<open>
  The body of the loop over the detections, for one row of \<^verbatim>\<open>det\<close>. \<open>p\<close> is the
  path of the image, \<open>imc\<close> the frame the crops are cut from, and the image of the state
  pair is the one the annotator draws on.
\<close>

definition export_detection ::
  "config \<Rightarrow> bool \<Rightarrow> bool \<Rightarrow> string \<Rightarrow> string \<Rightarrow> image \<Rightarrow> detection
   \<Rightarrow> state \<times> image \<Rightarrow> error + state \<times> image" where
  "export_detection cfg view save_img p txt_path imc d si =
     (case si of (st, im0) \<Rightarrow>
        let c = cls d in
        case nth_err (names cfg) c of
          None \<Rightarrow> Inl LookupError
        | Some label \<Rightarrow>
            let confidence_str = fmt_2f (conf d);
                st1 = (if save_csv cfg
                       then st\<lparr>csv_file :=
                               write_to_csv (csv_file st) (path_name p) label confidence_str\<rparr>
                       else st);
                st2 = (if save_txt cfg
                       then log_event (TxtWrite (txt_path @ ''.txt'') (label_line cfg imc d)) st1
                       else st1);
                im1 = (if save_img \<or> save_crop cfg \<or> view
                       then box_label im0 (xyxy d)
                              (if hide_labels cfg then None
                               else if hide_conf cfg then Some label
                               else Some (label @ '' '' @ fmt_2f (conf d))) c
                       else im0);
                st3 = (if save_crop cfg
                       then log_event
                              (SaveOneBox (xyxy d) imc
                                 (path_join (path_join (path_join (save_dir cfg) ''crops'') label)
                                    (path_stem p @ ''.jpg''))) st2
                       else st2)
            in Inr (st3, im1))"

text \<open>
  The loop \<^verbatim>\<open>for *xyxy, conf, cls in reversed(det)\<close>, on the list it is handed: the
  caller hands it the reversed detections.
\<close>

fun write_results ::
  "config \<Rightarrow> bool \<Rightarrow> bool \<Rightarrow> string \<Rightarrow> string \<Rightarrow> image \<Rightarrow> detection list
   \<Rightarrow> state \<times> image \<Rightarrow> error + state \<times> image" where
  "write_results cfg view save_img p txt_path imc [] si = Inr si"
| "write_results cfg view save_img p txt_path imc (d # ds) si =
     (case export_detection cfg view save_img p txt_path imc d si of
        Inl e \<Rightarrow> Inl e
      | Inr si1 \<Rightarrow> write_results cfg view save_img p txt_path imc ds si1)"

text \<open>The block under \<^verbatim>\<open>if len(det)\<close>.\<close>

definition process_detections ::
  "config \<Rightarrow> bool \<Rightarrow> bool \<Rightarrow> string \<Rightarrow> string \<Rightarrow> detection list
   \<Rightarrow> state \<times> image \<Rightarrow> error + state \<times> image" where
  "process_detections cfg view save_img p txt_path det si =
     (case si of (st, im0) \<Rightarrow>
        (case count_classes (names cfg) det (unique_classes det) (gNum st) of
           Inl e \<Rightarrow> Inl e
         | Inr g \<Rightarrow> write_results cfg view save_img p txt_path im0 (rev det) (st\<lparr>gNum := g\<rparr>, im0)))"

text \<open>
  The block under \<^verbatim>\<open>if view_img\<close>, for the image at the loader's path \<open>p\<close>. The loop
  body has made \<open>p\<close> a \<^verbatim>\<open>Path\<close>: the window is named \<^verbatim>\<open>str(p)\<close>, and \<^verbatim>\<open>windows\<close>
  holds the paths seen so far, each as its string.
\<close>

definition stream_results :: "config \<Rightarrow> string \<Rightarrow> image \<Rightarrow> state \<Rightarrow> state" where
  "stream_results cfg p im0 st =
     (let name = path_str p;
          st1 = (if linux cfg \<and> name \<notin> set (windows st)
                 then log_event (NamedWindow name) (st\<lparr>windows := windows st @ [name]\<rparr>)
                 else st)
      in log_event (Imshow name im0) st1)"

text \<open>
  The video branch of \<^verbatim>\<open>if save_img\<close>: the writer of stream \<open>i\<close> is replaced when the
  stored path differs from \<open>save_path\<close>, and the frame goes to the writer of stream \<open>i\<close>.
\<close>

definition writer_params :: "capture option \<Rightarrow> image \<Rightarrow> rat \<times> int \<times> int" where
  "writer_params vid_cap im0 =
     (case vid_cap of
        Some cap \<Rightarrow>
          (CAP_PROP_FPS cap, py_int (CAP_PROP_FRAME_WIDTH cap), py_int (CAP_PROP_FRAME_HEIGHT cap))
      | None \<Rightarrow> (30, int (width im0), int (height im0)))"

definition open_writer ::
  "capture option \<Rightarrow> nat \<Rightarrow> string \<Rightarrow> image \<Rightarrow> state \<Rightarrow> error + state" where
  "open_writer vid_cap i save_path im0 st =
     (let st1 = st\<lparr>vid_path := (vid_path st)[i := Some save_path]\<rparr> in
      case nth_err (vid_writer st1) i of
        None \<Rightarrow> Inl IndexError
      | Some old \<Rightarrow>
          let st2 = (case old of Some h \<Rightarrow> log_event (WriterRelease h) st1 | None \<Rightarrow> st1)
          in case writer_params vid_cap im0 of
               (fps, w, h) \<Rightarrow>
                 (case with_suffix save_path ''.mp4'' of
                    Inl e \<Rightarrow> Inl e
                  | Inr mp4 \<Rightarrow>
                      Inr (log_event (WriterOpen (next_writer st2) mp4 fps w h)
                            (st2\<lparr>vid_writer := (vid_writer st2)[i := Some (next_writer st2)],
                                 next_writer := Suc (next_writer st2)\<rparr>))))"

definition write_video ::
  "capture option \<Rightarrow> nat \<Rightarrow> string \<Rightarrow> image \<Rightarrow> state \<Rightarrow> error + state" where
  "write_video vid_cap i save_path im0 st =
     (case nth_err (vid_path st) i of
        None \<Rightarrow> Inl IndexError
      | Some stored \<Rightarrow>
          (case (if stored \<noteq> Some save_path then open_writer vid_cap i save_path im0 st
                 else Inr st) of
             Inl e \<Rightarrow> Inl e
           | Inr st1 \<Rightarrow>
               (case nth_err (vid_writer st1) i of
                  None \<Rightarrow> Inl IndexError
                | Some None \<Rightarrow> Inl AttributeError
                | Some (Some h) \<Rightarrow> Inr (log_event (WriterWrite h im0) st1))))"

text \<open>The block under \<^verbatim>\<open>if save_img\<close>.\<close>

definition save_results ::
  "item \<Rightarrow> nat \<Rightarrow> string \<Rightarrow> image \<Rightarrow> state \<Rightarrow> error + state" where
  "save_results it i save_path im0 st =
     (if it_mode it = ImageMode then Inr (log_event (Imwrite save_path im0) st)
      else write_video (it_vid_cap it) i save_path im0 st)"

text \<open>The paths \<^verbatim>\<open>save_path\<close> and \<^verbatim>\<open>txt_path\<close> of an image at path \<open>p\<close>.\<close>

definition save_path_of :: "config \<Rightarrow> string \<Rightarrow> string" where
  "save_path_of cfg p = path_join (save_dir cfg) (path_name p)"

definition txt_path_of :: "config \<Rightarrow> item \<Rightarrow> string \<Rightarrow> string" where
  "txt_path_of cfg it p =
     path_join (path_join (save_dir cfg) ''labels'') (path_stem p)
     @ (if it_mode it = ImageMode then [] else ''_'' @ show_nat (it_frame it))"

text \<open>
  The detections of the image, when it has any, and then the display and the saving of the
  annotated frame, which follow in either case.
\<close>

definition image_results ::
  "config \<Rightarrow> bool \<Rightarrow> bool \<Rightarrow> item \<Rightarrow> string \<Rightarrow> detection list
   \<Rightarrow> state \<times> image \<Rightarrow> error + state \<times> image" where
  "image_results cfg view save_img it p det si =
     (if det \<noteq> [] then process_detections cfg view save_img p (txt_path_of cfg it p) det si
      else Inr si)"

definition show_and_save ::
  "config \<Rightarrow> bool \<Rightarrow> bool \<Rightarrow> item \<Rightarrow> nat \<Rightarrow> string \<Rightarrow> image \<Rightarrow> state \<Rightarrow> error + state" where
  "show_and_save cfg view save_img it i p im0 st =
     (let st1 = (if view then stream_results cfg p im0 st else st)
      in if save_img then save_results it i (save_path_of cfg p) im0 st1 else Inr st1)"

text \<open>
  One pass of \<^verbatim>\<open>for i, det in enumerate(pred)\<close>. \<open>wc\<close>, \<open>view\<close> and \<open>save_img\<close> are the
  values of \<^verbatim>\<open>webcam\<close>, \<^verbatim>\<open>view_img\<close> and \<^verbatim>\<open>save_img\<close> when the loop starts.
\<close>

definition process_image ::
  "config \<Rightarrow> bool \<Rightarrow> bool \<Rightarrow> bool \<Rightarrow> item \<Rightarrow> state \<Rightarrow> nat \<times> detection list \<Rightarrow> error + state" where
  "process_image cfg wc view save_img it st idet =
     (case idet of (i, det) \<Rightarrow>
        (case nth_err (it_path it) (if wc then i else 0) of
           None \<Rightarrow> Inl IndexError
         | Some p \<Rightarrow>
             (case nth_err (it_im0s it) (if wc then i else 0) of
                None \<Rightarrow> Inl IndexError
              | Some im0 \<Rightarrow>
                  (case image_results cfg view save_img it p det
                          (st\<lparr>seen := seen st + 1\<rparr>, im0) of
                     Inl e \<Rightarrow> Inl e
                   | Inr (st1, im1) \<Rightarrow> show_and_save cfg view save_img it i p im1 st1))))"

fun process_batch ::
  "config \<Rightarrow> bool \<Rightarrow> bool \<Rightarrow> bool \<Rightarrow> item \<Rightarrow> (nat \<times> detection list) list \<Rightarrow> state
   \<Rightarrow> error + state" where
  "process_batch cfg wc view save_img it [] st = Inr st"
| "process_batch cfg wc view save_img it (idet # rest) st =
     (case process_image cfg wc view save_img it st idet of
        Inl e \<Rightarrow> Inl e
      | Inr st1 \<Rightarrow> process_batch cfg wc view save_img it rest st1)"

text \<open>
  The loop \<^verbatim>\<open>for path, im, im0s, vid_cap, s in dataset\<close>. Nothing in it catches an
  exception, so the first one ends the loop and the run.
\<close>

fun run_loop ::
  "config \<Rightarrow> bool \<Rightarrow> bool \<Rightarrow> bool \<Rightarrow> item list \<Rightarrow> state \<Rightarrow> error + state" where
  "run_loop cfg wc view save_img [] st = Inr st"
| "run_loop cfg wc view save_img (it # its) st =
     (case it_pred it of
        Inl e \<Rightarrow> Inl e
      | Inr pred \<Rightarrow>
          (case process_batch cfg wc view save_img it (enumerate 0 pred) st of
             Inl e \<Rightarrow> Inl e
           | Inr st1 \<Rightarrow> run_loop cfg wc view save_img its st1))"

section \<open>The run\<close>

text \<open>
  \<^verbatim>\<open>run\<close>, from the flags of the source to the printed summary, on a data loader that
  yields finitely many steps; \<open>csv0\<close> is \<^verbatim>\<open>predictions.csv\<close> as the run finds it. The
  loading of the model, its warm-up and \<^verbatim>\<open>strip_optimizer\<close> are outside the embedding.
  After the loop the per-image speeds divide the accumulated times by \<^verbatim>\<open>seen\<close>.
\<close>

definition initial_state :: "nat \<Rightarrow> string list list option \<Rightarrow> state" where
  "initial_state bs csv0 =
     \<lparr>seen = 0, gNum = [JInt 0, JInt 0, JInt 0], windows = [],
      vid_path = replicate bs None, vid_writer = replicate bs None, next_writer = 0,
      csv_file = csv0, trace = []\<rparr>"

definition run_frames :: "config \<Rightarrow> dataset \<Rightarrow> string list list option \<Rightarrow> error + state" where
  "run_frames cfg ds csv0 =
     (let save_img = (\<not> nosave cfg \<and> \<not> endswith (source cfg) ''.txt'');
          wc = webcam (formats cfg) (source cfg);
          view = (if wc then check_imshow cfg else view_img cfg);
          bs = (if wc then len_dataset ds else 1)
      in run_loop cfg wc view save_img (items ds) (initial_state bs csv0))"

definition run ::
  "config \<Rightarrow> dataset \<Rightarrow> string list list option \<Rightarrow> error + state \<times> summary" where
  "run cfg ds csv0 =
     (case run_frames cfg ds csv0 of
        Inl e \<Rightarrow> Inl e
      | Inr st \<Rightarrow>
          if seen st = 0 then Inl ZeroDivisionError
          else Inr (st, \<lparr>imagePath = abspath (cwd cfg) (save_dir cfg), counts = gNum st\<rparr>))"

text \<open>The writers a trace leaves open: opened and not released since.\<close>

definition apply_event :: "nat set \<Rightarrow> event \<Rightarrow> nat set" where
  "apply_event S e =
     (case e of WriterOpen h _ _ _ _ \<Rightarrow> insert h S | WriterRelease h \<Rightarrow> S - {h} | _ \<Rightarrow> S)"

definition open_writers :: "event list \<Rightarrow> nat set" where
  "open_writers tr = foldl apply_event {} tr"

section \<open>Notions of the statements\<close>

text \<open>The rows of the CSV file, none while it does not exist.\<close>

definition csv_rows :: "string list list option \<Rightarrow> string list list" where
  "csv_rows f = (case f of None \<Rightarrow> [] | Some rows \<Rightarrow> rows)"

text \<open>
  What one detection contributes to each export: its CSV row, the box drawn for it, and
  its events (the label line, then the crop).
\<close>

definition csv_row :: "config \<Rightarrow> string \<Rightarrow> detection \<Rightarrow> string list" where
  "csv_row cfg p d = [path_name p, names cfg ! cls d, fmt_2f (conf d)]"

definition overlay :: "config \<Rightarrow> detection \<Rightarrow> box \<times> string option \<times> nat" where
  "overlay cfg d =
     (xyxy d,
      if hide_labels cfg then None
      else if hide_conf cfg then Some (names cfg ! cls d)
      else Some (names cfg ! cls d @ '' '' @ fmt_2f (conf d)),
      cls d)"

definition det_events :: "config \<Rightarrow> string \<Rightarrow> string \<Rightarrow> image \<Rightarrow> detection \<Rightarrow> event list" where
  "det_events cfg p txt_path imc d =
     (if save_txt cfg then [TxtWrite (txt_path @ ''.txt'') (label_line cfg imc d)] else [])
     @ (if save_crop cfg
        then [SaveOneBox (xyxy d) imc
                (path_join (path_join (path_join (save_dir cfg) ''crops'') (names cfg ! cls d))
                   (path_stem p @ ''.jpg''))]
        else [])"

text \<open>
  Consecutive frames of stream \<open>i\<close> that all compute the output path \<open>save_path\<close>: the
  video branch, once per frame, each frame with the capture handle of its step.
\<close>

fun write_frames ::
  "nat \<Rightarrow> string \<Rightarrow> (capture option \<times> image) list \<Rightarrow> state \<Rightarrow> error + state" where
  "write_frames i save_path [] st = Inr st"
| "write_frames i save_path (f # fs) st =
     (case write_video (fst f) i save_path (snd f) st of
        Inl e \<Rightarrow> Inl e
      | Inr st1 \<Rightarrow> write_frames i save_path fs st1)"

definition is_open_event :: "event \<Rightarrow> bool" where
  "is_open_event e = (case e of WriterOpen _ _ _ _ _ \<Rightarrow> True | _ \<Rightarrow> False)"

text \<open>The images of the steps: how many there are, and whether class \<open>c\<close> occurs in one.\<close>

definition images_of :: "item \<Rightarrow> detection list list" where
  "images_of it = (case it_pred it of Inl _ \<Rightarrow> [] | Inr pred \<Rightarrow> pred)"

definition batch_has :: "nat \<Rightarrow> detection list list \<Rightarrow> bool" where
  "batch_has c pred = list_ex (\<lambda>det. list_ex (\<lambda>d. cls d = c) det) pred"

definition observed :: "nat \<Rightarrow> item list \<Rightarrow> bool" where
  "observed c its = list_ex (\<lambda>it. list_ex (\<lambda>det. list_ex (\<lambda>d. cls d = c) det) (images_of it)) its"

definition images_total :: "item list \<Rightarrow> nat" where
  "images_total its = sum_list (map (\<lambda>it. length (images_of it)) its)"

text \<open>The release the video branch makes of the writer a stream had, if it had one.\<close>

definition release_old :: "nat option \<Rightarrow> event list" where
  "release_old old = (case old of Some h \<Rightarrow> [WriterRelease h] | None \<Rightarrow> [])"

text \<open>
  The registry of the writers is consistent: the two lists are as long as each other, the
  writers the trace leaves open are the ones \<^verbatim>\<open>vid_writer\<close> holds, no writer is held
  twice, and a stream with a stored path holds a writer.
\<close>

definition held_once :: "nat option list \<Rightarrow> bool" where
  "held_once vw =
     (\<forall>i j. i < length vw \<longrightarrow> j < length vw \<longrightarrow> vw ! i \<noteq> None \<longrightarrow> vw ! i = vw ! j \<longrightarrow> i = j)"

definition stored_held :: "string option list \<Rightarrow> nat option list \<Rightarrow> bool" where
  "stored_held vp vw = (\<forall>i. i < length vp \<longrightarrow> vp ! i \<noteq> None \<longrightarrow> vw ! i \<noteq> None)"

definition registry_ok :: "state \<Rightarrow> bool" where
  "registry_ok st =
     (length (vid_path st) = length (vid_writer st)
      \<and> open_writers (trace st) = {h. Some h \<in> set (vid_writer st)}
      \<and> (\<forall>h. Some h \<in> set (vid_writer st) \<longrightarrow> h < next_writer st)
      \<and> held_once (vid_writer st)
      \<and> stored_held (vid_path st) (vid_writer st))"

section \<open>A run on a photograph and a run on a video\<close>

text \<open>
  Concrete inputs: a model with the classes goose and egg, a photograph with one detection
  of each, and a video file of two frames with one goose in the first frame and nothing
  in the second.
\<close>

definition goose_cfg :: config where
  "goose_cfg =
     \<lparr>source = ''data/im.jpg'', view_img = False, save_txt = True, save_format = 0,
      save_csv = True, save_conf = True, save_crop = False, nosave = False,
      hide_labels = False, hide_conf = False, names = [''goose'', ''egg''],
      formats = [''jpg'', ''mp4'', ''avi''], save_dir = ''runs/detect/exp'', cwd = ''/work'',
      check_imshow = False, linux = True\<rparr>"

definition photo :: image where
  "photo = \<lparr>height = 480, width = 640, pixels = 7, drawn = []\<rparr>"

definition goose_det :: detection where
  "goose_det = \<lparr>xyxy = (10, 20, 110, 220), conf = 91 / 100, cls = 0\<rparr>"

definition egg_det :: detection where
  "egg_det = \<lparr>xyxy = (30, 40, 50, 60), conf = 77 / 100, cls = 1\<rparr>"

definition photo_item :: item where
  "photo_item =
     \<lparr>it_path = [''data/im.jpg''], it_im0s = [photo], it_vid_cap = None, it_mode = ImageMode,
      it_frame = 0, it_pred = Inr [[goose_det, egg_det]]\<rparr>"

definition photo_ds :: dataset where
  "photo_ds = \<lparr>len_dataset = 1, items = [photo_item]\<rparr>"

definition video_cfg :: config where
  "video_cfg = goose_cfg\<lparr>source := ''data/vid.avi'', save_txt := False, save_csv := False\<rparr>"

definition video_cap :: capture where
  "video_cap = \<lparr>CAP_PROP_FPS = 25, CAP_PROP_FRAME_WIDTH = 640, CAP_PROP_FRAME_HEIGHT = 480\<rparr>"

definition video_item :: "nat \<Rightarrow> detection list \<Rightarrow> item" where
  "video_item n det =
     \<lparr>it_path = [''data/vid.avi''], it_im0s = [photo\<lparr>pixels := n\<rparr>], it_vid_cap = Some video_cap,
      it_mode = VideoMode, it_frame = n, it_pred = Inr [det]\<rparr>"

definition video_ds :: dataset where
  "video_ds = \<lparr>len_dataset = 1, items = [video_item 1 [goose_det], video_item 2 []]\<rparr>"




text \<open>
  A state in which stream 0 holds a writer for another path, and a step of the video
  whose model call raises.
\<close>

definition busy_state :: state where
  "busy_state =
     (initial_state 1 None)
       \<lparr>vid_path := [Some ''runs/detect/exp/old.avi''], vid_writer := [Some 0], next_writer := 1,
        trace := [WriterOpen 0 ''runs/detect/exp/old.mp4'' 25 640 480]\<rparr>"


section \<open>Normalised boxes\<close>





section \<open>A run on a live stream\<close>



lemma startswith_has_prefix: "startswith s p = has_prefix s p"
  unfolding startswith_def has_prefix_def
  by (metis append_eq_conv_conj append_take_drop_id)

lemma endswith_has_suffix: "endswith s p = has_suffix s p"
proof
  assume "endswith s p"
  then have "s = take (length s - length p) s @ p"
    unfolding endswith_def by (metis append_take_drop_id)
  then show "has_suffix s p"
    unfolding has_suffix_def by blast
next
  assume "has_suffix s p"
  then obtain pre where "s = pre @ p"
    unfolding has_suffix_def by blast
  then show "endswith s p"
    unfolding endswith_def by simp
qed

lemma isnumeric_numeric_string: "isnumeric s = numeric_string s"
  unfolding isnumeric_def numeric_string_def by (cases s) auto

lemma is_url_network_url: "is_url s = network_url s"
  unfolding is_url_def network_url_def startswith_any_def
  by (simp add: startswith_has_prefix)

lemma is_file_known_extension: "is_file fmts s = known_extension fmts s"
  unfolding is_file_def known_extension_def by (simp add: drop_Suc)

text \<open>
  C6. For every source descriptor the classifier of \<^verbatim>\<open>run\<close> selects one loader, and it
  is the one the priority rules name: live-stream mode for a numeric string, a
  \<^verbatim>\<open>.streams\<close> suffix, or a network URL whose extension is not a known image or video
  extension; otherwise screenshot mode for the \<^verbatim>\<open>screen\<close> prefix; otherwise
  file-sequence mode.
\<close>

theorem select_loader_spec_mode:
  "select_loader fmts src = spec_mode fmts src"
  unfolding select_loader_def spec_mode_def webcam_def screenshot_def
  by (simp add: isnumeric_numeric_string endswith_has_suffix is_url_network_url
      is_file_known_extension startswith_has_prefix)

theorem select_loader_spec_mode_witness:
  "select_loader [''jpg'', ''mp4''] ''https://host/cam'' = LoadStreams
   \<and> spec_mode [''jpg'', ''mp4''] ''https://host/cam'' = LoadStreams
   \<and> spec_mode [''jpg'', ''mp4''] ''HTTPS://host/a.mp4'' = LoadImages
   \<and> spec_mode [''jpg'', ''mp4''] ''Screen 0'' = LoadScreenshots
   \<and> spec_mode [''jpg'', ''mp4''] ''0'' = LoadStreams
   \<and> spec_mode [''jpg'', ''mp4''] ''cams.streams'' = LoadStreams
   \<and> spec_mode [''jpg'', ''mp4''] ''data/images'' = LoadImages"
  unfolding select_loader_spec_mode [symmetric]
  by code_simp

section \<open>The loop over the detections\<close>


lemma write_to_csv_rows:
  "write_to_csv f n p c = Some ((case f of None \<Rightarrow> [] | Some rows \<Rightarrow> rows) @ [[n, p, c]])"
  by (simp add: write_to_csv_def open_append_def fs_is_file_def writerow_def split: option.splits)

lemma export_detection_Inr:
  assumes "export_detection cfg view si p tp imc d (st, im0) = Inr (st', im')"
  shows "cls d < length (names cfg)"
    and "trace st' = trace st @ det_events cfg p tp imc d"
    and "im' = (if si \<or> save_crop cfg \<or> view then im0\<lparr>drawn := drawn im0 @ [overlay cfg d]\<rparr> else im0)"
    and "csv_file st' = (if save_csv cfg then Some (csv_rows (csv_file st) @ [csv_row cfg p d])
                         else csv_file st)"
    and "seen st' = seen st" and "gNum st' = gNum st" and "windows st' = windows st"
    and "vid_path st' = vid_path st" and "vid_writer st' = vid_writer st"
    and "next_writer st' = next_writer st"
  using assms
  by (auto simp add: export_detection_def Let_def nth_err_def log_event_def box_label_def
      write_to_csv_rows csv_rows_def csv_row_def overlay_def det_events_def
      split: if_splits)

lemma export_detection_total:
  "cls d < length (names cfg) \<Longrightarrow> \<exists>r. export_detection cfg view si p tp imc d (st, im0) = Inr r"
  by (simp add: export_detection_def Let_def nth_err_def)


lemma write_results_Cons_Inr:
  assumes "write_results cfg view si p tp imc (d # ds) sim = Inr r"
  obtains st1 im1 where "export_detection cfg view si p tp imc d sim = Inr (st1, im1)"
    and "write_results cfg view si p tp imc ds (st1, im1) = Inr r"
  using assms by (auto split: sum.splits)

lemma write_results_Inr:
  assumes "write_results cfg view si p tp imc ds (st, im0) = Inr (st', im')"
  shows "list_all (\<lambda>d. cls d < length (names cfg)) ds
    \<and> trace st' = trace st @ concat (map (det_events cfg p tp imc) ds)
    \<and> im' = (if si \<or> save_crop cfg \<or> view
              then im0\<lparr>drawn := drawn im0 @ map (overlay cfg) ds\<rparr> else im0)
    \<and> csv_file st' = (if save_csv cfg \<and> ds \<noteq> []
                       then Some (csv_rows (csv_file st) @ map (csv_row cfg p) ds)
                       else csv_file st)
    \<and> seen st' = seen st \<and> gNum st' = gNum st \<and> windows st' = windows st
    \<and> vid_path st' = vid_path st \<and> vid_writer st' = vid_writer st
    \<and> next_writer st' = next_writer st"
  using assms
proof (induction ds arbitrary: st im0)
  case Nil
  then show ?case by simp
next
  case (Cons d ds)
  from Cons.prems obtain st1 im1
    where step: "export_detection cfg view si p tp imc d (st, im0) = Inr (st1, im1)"
      and rest: "write_results cfg view si p tp imc ds (st1, im1) = Inr (st', im')"
    by (rule write_results_Cons_Inr)
  note s = export_detection_Inr [OF step]
  note r = Cons.IH [OF rest]
  show ?case
    using r s by (simp add: csv_rows_def)
qed

lemma write_results_total:
  "list_all (\<lambda>d. cls d < length (names cfg)) ds \<Longrightarrow>
   \<exists>r. write_results cfg view si p tp imc ds sim = Inr r"
proof (induction ds arbitrary: sim)
  case Nil
  then show ?case by simp
next
  case (Cons d ds)
  obtain st im0 where sim: "sim = (st, im0)" by (cases sim)
  from Cons.prems have "cls d < length (names cfg)" by simp
  then obtain r1 where "export_detection cfg view si p tp imc d (st, im0) = Inr r1"
    using export_detection_total by blast
  moreover from Cons have "\<exists>r. write_results cfg view si p tp imc ds r1 = Inr r" by simp
  ultimately show ?case by (simp add: sim)
qed

section \<open>The class counts of one image\<close>


lemma set_unique_classes: "set (unique_classes det) = cls ` set det"
  by (simp add: unique_classes_def)

lemma count_classes_Inr:
  assumes "count_classes nms det cs g = Inr g'"
  shows "length g' = length g
    \<and> list_all (\<lambda>c. c < length g \<and> c < length nms) cs
    \<and> (\<forall>c. g' ! c = (if c \<in> set cs then JStr (show_nat (count_class det c)) else g ! c))"
  using assms
proof (induction cs arbitrary: g)
  case Nil
  then show ?case by simp
next
  case (Cons a cs)
  from Cons.prems have a: "a < length g" "a < length nms"
    and rest: "count_classes nms det cs (g[a := JStr (show_nat (count_class det a))]) = Inr g'"
    by (auto split: if_splits)
  from Cons.IH [OF rest] a show ?case
    by (auto simp: nth_list_update)
qed

lemma count_classes_total:
  "list_all (\<lambda>c. c < length g \<and> c < length nms) cs \<Longrightarrow> \<exists>g'. count_classes nms det cs g = Inr g'"
  by (induction cs arbitrary: g) auto

lemma count_class_pos: "c \<in> cls ` set det \<Longrightarrow> 0 < count_class det c"
  by (auto simp: count_class_def filter_empty_conv)

lemma process_detections_Inr:
  assumes "process_detections cfg view si p tp det (st, im0) = Inr (st', im')"
  obtains g where "count_classes (names cfg) det (unique_classes det) (gNum st) = Inr g"
    and "write_results cfg view si p tp im0 (rev det) (st\<lparr>gNum := g\<rparr>, im0) = Inr (st', im')"
  using assms by (auto simp: process_detections_def split: sum.splits)

lemma process_detections_total:
  assumes "list_all (\<lambda>d. cls d < length (gNum st) \<and> cls d < length (names cfg)) det"
  shows "\<exists>r. process_detections cfg view si p tp det (st, im0) = Inr r"
proof -
  from assms have "list_all (\<lambda>c. c < length (gNum st) \<and> c < length (names cfg)) (unique_classes det)"
    by (auto simp: list_all_iff set_unique_classes)
  then obtain g where g: "count_classes (names cfg) det (unique_classes det) (gNum st) = Inr g"
    using count_classes_total by blast
  from assms have "list_all (\<lambda>d. cls d < length (names cfg)) (rev det)"
    by (auto simp: list_all_iff)
  then obtain r where "write_results cfg view si p tp im0 (rev det) (st\<lparr>gNum := g\<rparr>, im0) = Inr r"
    using write_results_total by blast
  with g show ?thesis by (simp add: process_detections_def)
qed

section \<open>The video writers\<close>


lemma stream_results_fields:
  "seen (stream_results cfg p im st) = seen st"
  "gNum (stream_results cfg p im st) = gNum st"
  "vid_path (stream_results cfg p im st) = vid_path st"
  "vid_writer (stream_results cfg p im st) = vid_writer st"
  "next_writer (stream_results cfg p im st) = next_writer st"
  "csv_file (stream_results cfg p im st) = csv_file st"
  "trace (stream_results cfg p im st) =
     trace st @ (if linux cfg \<and> path_str p \<notin> set (windows st) then [NamedWindow (path_str p)] else [])
     @ [Imshow (path_str p) im]"
  by (simp_all add: stream_results_def log_event_def Let_def)

lemma open_writer_Inr:
  assumes "open_writer vid_cap i sp im0 st = Inr st'"
  obtains mp4 fps w h where "i < length (vid_writer st)"
    and "with_suffix sp ''.mp4'' = Inr mp4"
    and "writer_params vid_cap im0 = (fps, w, h)"
    and "st' = st\<lparr>vid_path := (vid_path st)[i := Some sp],
                   vid_writer := (vid_writer st)[i := Some (next_writer st)],
                   next_writer := Suc (next_writer st),
                   trace := trace st @ release_old (vid_writer st ! i)
                            @ [WriterOpen (next_writer st) mp4 fps w h]\<rparr>"
  using assms
  by (auto simp: open_writer_def Let_def nth_err_def log_event_def release_old_def
      split: if_splits option.splits sum.splits prod.splits)

lemma open_writer_total:
  assumes "i < length (vid_writer st)" and "with_suffix sp ''.mp4'' = Inr mp4"
  shows "open_writer vid_cap i sp im0 st =
     Inr (st\<lparr>vid_path := (vid_path st)[i := Some sp],
             vid_writer := (vid_writer st)[i := Some (next_writer st)],
             next_writer := Suc (next_writer st),
             trace := trace st @ release_old (vid_writer st ! i)
                      @ [WriterOpen (next_writer st) mp4 (fst (writer_params vid_cap im0))
                           (fst (snd (writer_params vid_cap im0)))
                           (snd (snd (writer_params vid_cap im0)))]\<rparr>)"
  using assms
  by (auto simp: open_writer_def Let_def nth_err_def log_event_def release_old_def
      split: option.splits prod.splits)

lemma write_video_Inr:
  assumes "write_video vid_cap i sp im0 st = Inr st'"
  obtains (reopened) st1 where "i < length (vid_path st)" and "vid_path st ! i \<noteq> Some sp"
      and "open_writer vid_cap i sp im0 st = Inr st1"
      and "st' = log_event (WriterWrite (next_writer st) im0) st1"
    | (same) h where "i < length (vid_path st)" and "vid_path st ! i = Some sp"
      and "i < length (vid_writer st)" and "vid_writer st ! i = Some h"
      and "st' = log_event (WriterWrite h im0) st"
proof (cases "vid_path st ! i = Some sp")
  case True
  with assms have "i < length (vid_path st)" "i < length (vid_writer st)"
    and "\<exists>h. vid_writer st ! i = Some h \<and> st' = log_event (WriterWrite h im0) st"
    by (auto simp: write_video_def nth_err_def split: if_splits option.splits sum.splits)
  with True same show ?thesis by blast
next
  case False
  with assms have i: "i < length (vid_path st)"
    by (auto simp: write_video_def nth_err_def split: if_splits)
  with assms False obtain st1 where ow: "open_writer vid_cap i sp im0 st = Inr st1"
    by (auto simp: write_video_def nth_err_def split: sum.splits)
  from ow obtain mp4 fps w h where il: "i < length (vid_writer st)"
    and st1: "st1 = st\<lparr>vid_path := (vid_path st)[i := Some sp],
                   vid_writer := (vid_writer st)[i := Some (next_writer st)],
                   next_writer := Suc (next_writer st),
                   trace := trace st @ release_old (vid_writer st ! i)
                            @ [WriterOpen (next_writer st) mp4 fps w h]\<rparr>"
    by (rule open_writer_Inr)
  from assms i False ow il have "st' = log_event (WriterWrite (next_writer st) im0) st1"
    by (simp add: write_video_def nth_err_def st1)
  with i False ow reopened show ?thesis by blast
qed

section \<open>The registry of the writers\<close>


lemma open_writers_append:
  "open_writers (tr @ evs) = foldl apply_event (open_writers tr) evs"
  by (simp add: open_writers_def)

lemma set_update_Some:
  assumes "i < length vw"
  shows "Some h \<in> set (vw[i := Some n]) \<longleftrightarrow> h = n \<or> (\<exists>j < length vw. j \<noteq> i \<and> vw ! j = Some h)"
  by (metis (no_types, lifting) assms in_set_conv_nth length_list_update
    nth_list_update_eq nth_list_update_neq option.inject)

lemma registry_ok_unchanged:
  assumes "registry_ok st" and "vid_path st' = vid_path st" and "vid_writer st' = vid_writer st"
    and "next_writer st' = next_writer st" and "open_writers (trace st') = open_writers (trace st)"
  shows "registry_ok st'"
  using assms by (simp add: registry_ok_def)

lemma handles_after_open:
  assumes i: "i < length vw"
    and uniq: "held_once vw"
    and fresh: "\<forall>h. Some h \<in> set vw \<longrightarrow> h < n"
  shows "{h. Some h \<in> set (vw[i := Some n])}
         = insert n (foldl apply_event {h. Some h \<in> set vw} (release_old (vw ! i)))"
proof (cases "vw ! i")
  case None
  have "\<And>h. (\<exists>j<length vw. j \<noteq> i \<and> vw ! j = Some h) \<longleftrightarrow> Some h \<in> set vw"
    using None by (metis in_set_conv_nth option.distinct(1))
  then show ?thesis
    using None by (auto simp: set_update_Some [OF i] release_old_def)
next
  case (Some h0)
  have "\<And>h. (\<exists>j<length vw. j \<noteq> i \<and> vw ! j = Some h) \<longleftrightarrow> Some h \<in> set vw \<and> h \<noteq> h0"
    using Some i uniq unfolding held_once_def
    by (metis in_set_conv_nth option.distinct(1) option.inject)
  moreover have "h0 < n" using Some i fresh by (metis nth_mem)
  ultimately show ?thesis
    using Some by (auto simp: set_update_Some [OF i] release_old_def apply_event_def)
qed

lemma held_once_update:
  assumes i: "i < length vw" and uniq: "held_once vw"
    and fresh: "\<forall>h. Some h \<in> set vw \<longrightarrow> h < n"
  shows "held_once (vw[i := Some n])"
  unfolding held_once_def
proof (intro allI impI)
  fix a b
  assume a: "a < length (vw[i := Some n])" and b: "b < length (vw[i := Some n])"
    and nn: "vw[i := Some n] ! a \<noteq> None" and eq: "vw[i := Some n] ! a = vw[i := Some n] ! b"
  have neq: "\<And>j. j < length vw \<Longrightarrow> vw ! j \<noteq> Some n"
    using fresh by (metis less_irrefl nth_mem)
  show "a = b"
  proof (cases "a = i")
    case True
    with eq i have bn: "vw[i := Some n] ! b = Some n" by simp
    show ?thesis
    proof (rule ccontr)
      assume "a \<noteq> b"
      with True have "b \<noteq> i" by simp
      with bn have "vw ! b = Some n" by simp
      with neq [of b] b show False by simp
    qed
  next
    case False
    then have va: "vw[i := Some n] ! a = vw ! a" by simp
    have bi: "b \<noteq> i"
    proof
      assume "b = i"
      with i have "vw[i := Some n] ! b = Some n" by simp
      with eq va have "vw ! a = Some n" by simp
      with neq [of a] a show False by simp
    qed
    then have vb: "vw[i := Some n] ! b = vw ! b" by simp
    from a b have "a < length vw" "b < length vw" by simp_all
    moreover from nn va have "vw ! a \<noteq> None" by simp
    moreover from eq va vb have "vw ! a = vw ! b" by simp
    ultimately show ?thesis
      using uniq unfolding held_once_def by blast
  qed
qed

lemma open_writer_registry_ok:
  assumes ok: "registry_ok st" and ow: "open_writer vid_cap i sp im0 st = Inr st'"
  shows "registry_ok st'"
proof -
  from ow obtain mp4 fps w h where i: "i < length (vid_writer st)"
    and st': "st' = st\<lparr>vid_path := (vid_path st)[i := Some sp],
                   vid_writer := (vid_writer st)[i := Some (next_writer st)],
                   next_writer := Suc (next_writer st),
                   trace := trace st @ release_old (vid_writer st ! i)
                            @ [WriterOpen (next_writer st) mp4 fps w h]\<rparr>"
    by (rule open_writer_Inr)
  let ?vw = "vid_writer st" and ?n = "next_writer st"
  from ok have len: "length (vid_path st) = length ?vw"
    and opn: "open_writers (trace st) = {h. Some h \<in> set ?vw}"
    and fresh: "\<forall>h. Some h \<in> set ?vw \<longrightarrow> h < ?n"
    and uniq: "held_once ?vw"
    and stored: "stored_held (vid_path st) ?vw"
    by (simp_all add: registry_ok_def)
  have h: "{h. Some h \<in> set (?vw[i := Some ?n])}
           = insert ?n (foldl apply_event {h. Some h \<in> set ?vw} (release_old (?vw ! i)))"
    by (rule handles_after_open [OF i uniq fresh])
  have c1: "length (vid_path st') = length (vid_writer st')"
    by (simp add: st' len)
  have c2: "open_writers (trace st') = {h. Some h \<in> set (vid_writer st')}"
    by (simp add: st' open_writers_append opn h apply_event_def)
  have c3: "\<forall>h. Some h \<in> set (vid_writer st') \<longrightarrow> h < next_writer st'"
    using fresh by (auto simp: st' set_update_Some [OF i] less_Suc_eq) (metis nth_mem)
  have c4: "held_once (vid_writer st')"
    using held_once_update [OF i uniq fresh] by (simp add: st')
  have c5: "stored_held (vid_path st') (vid_writer st')"
    unfolding stored_held_def
  proof (intro allI impI)
    fix a
    assume a: "a < length (vid_path st')" and nn: "vid_path st' ! a \<noteq> None"
    show "vid_writer st' ! a \<noteq> None"
    proof (cases "a = i")
      case True
      with i show ?thesis by (simp add: st')
    next
      case False
      with a nn have "a < length (vid_path st)" "vid_path st ! a \<noteq> None"
        by (simp_all add: st')
      with stored have "vid_writer st ! a \<noteq> None"
        unfolding stored_held_def by blast
      with False show ?thesis by (simp add: st')
    qed
  qed
  from c1 c2 c3 c4 c5 show ?thesis
    unfolding registry_ok_def by blast
qed

section \<open>The registry along the loop\<close>


lemma det_events_no_writer:
  "foldl apply_event S (det_events cfg p tp imc d) = S"
  by (simp add: det_events_def apply_event_def)

lemma det_events_list_no_writer:
  "foldl apply_event S (concat (map (det_events cfg p tp imc) ds)) = S"
  by (induction ds arbitrary: S) (simp_all add: det_events_no_writer)

lemma write_results_registry_ok:
  assumes ok: "registry_ok st"
    and wr: "write_results cfg view si p tp imc ds (st, im0) = Inr (st', im')"
  shows "registry_ok st'"
proof (rule registry_ok_unchanged [OF ok])
  note r = write_results_Inr [OF wr]
  from r show "vid_path st' = vid_path st" by simp
  from r show "vid_writer st' = vid_writer st" by simp
  from r show "next_writer st' = next_writer st" by simp
  from r have "trace st' = trace st @ concat (map (det_events cfg p tp imc) ds)" by simp
  then show "open_writers (trace st') = open_writers (trace st)"
    by (simp add: open_writers_append det_events_list_no_writer)
qed

lemma registry_ok_gNum: "registry_ok (st\<lparr>gNum := g\<rparr>) = registry_ok st"
  by (simp add: registry_ok_def)

lemma registry_ok_seen: "registry_ok (st\<lparr>seen := n\<rparr>) = registry_ok st"
  by (simp add: registry_ok_def)

lemma process_detections_registry_ok:
  assumes ok: "registry_ok st"
    and pd: "process_detections cfg view si p tp det (st, im0) = Inr (st', im')"
  shows "registry_ok st'"
proof -
  from pd obtain g
    where wr: "write_results cfg view si p tp im0 (rev det) (st\<lparr>gNum := g\<rparr>, im0) = Inr (st', im')"
    by (rule process_detections_Inr)
  from ok have "registry_ok (st\<lparr>gNum := g\<rparr>)" by (simp add: registry_ok_gNum)
  then show ?thesis using wr by (rule write_results_registry_ok)
qed

lemma stream_results_registry_ok:
  assumes ok: "registry_ok st"
  shows "registry_ok (stream_results cfg p im st)"
proof (rule registry_ok_unchanged [OF ok])
  show "open_writers (trace (stream_results cfg p im st)) = open_writers (trace st)"
    by (simp add: stream_results_fields open_writers_append apply_event_def)
qed (simp_all add: stream_results_fields)

lemma log_event_registry_ok:
  assumes ok: "registry_ok st" and e: "\<And>S. apply_event S e = S"
  shows "registry_ok (log_event e st)"
proof (rule registry_ok_unchanged [OF ok])
  show "open_writers (trace (log_event e st)) = open_writers (trace st)"
    by (simp add: log_event_def open_writers_append e)
qed (simp_all add: log_event_def)

lemma write_video_registry_ok:
  assumes ok: "registry_ok st" and wv: "write_video vid_cap i sp im0 st = Inr st'"
  shows "registry_ok st'"
  using wv
proof (cases rule: write_video_Inr)
  case (reopened st1)
  from ok reopened(3) have "registry_ok st1" by (rule open_writer_registry_ok)
  then show ?thesis
    unfolding reopened(4) by (rule log_event_registry_ok) (simp add: apply_event_def)
next
  case (same h)
  from ok show ?thesis
    unfolding same(5) by (rule log_event_registry_ok) (simp add: apply_event_def)
qed

lemma save_results_registry_ok:
  assumes ok: "registry_ok st" and sr: "save_results it i sp im0 st = Inr st'"
  shows "registry_ok st'"
proof (cases "it_mode it = ImageMode")
  case True
  with sr have "st' = log_event (Imwrite sp im0) st" by (simp add: save_results_def)
  with ok show ?thesis
    by (simp add: log_event_registry_ok apply_event_def)
next
  case False
  with sr have "write_video (it_vid_cap it) i sp im0 st = Inr st'" by (simp add: save_results_def)
  with ok show ?thesis by (rule write_video_registry_ok)
qed

lemma process_image_unfold:
  "process_image cfg wc view si it st (i, det) =
     (case nth_err (it_path it) (if wc then i else 0) of
        None \<Rightarrow> Inl IndexError
      | Some p \<Rightarrow>
          (case nth_err (it_im0s it) (if wc then i else 0) of
             None \<Rightarrow> Inl IndexError
           | Some im0 \<Rightarrow>
               (case image_results cfg view si it p det (st\<lparr>seen := seen st + 1\<rparr>, im0) of
                  Inl e \<Rightarrow> Inl e
                | Inr r \<Rightarrow> show_and_save cfg view si it i p (snd r) (fst r))))"
  by (simp add: process_image_def split: option.splits sum.splits prod.splits)

lemma process_image_Inr:
  assumes "process_image cfg wc view si it st (i, det) = Inr st'"
  obtains p im0 st2 im1
  where "nth_err (it_path it) (if wc then i else 0) = Some p"
    and "nth_err (it_im0s it) (if wc then i else 0) = Some im0"
    and "image_results cfg view si it p det (st\<lparr>seen := seen st + 1\<rparr>, im0) = Inr (st2, im1)"
    and "show_and_save cfg view si it i p im1 st2 = Inr st'"
proof -
  note a = assms [unfolded process_image_unfold]
  obtain p where p: "nth_err (it_path it) (if wc then i else 0) = Some p"
    using a by (cases "nth_err (it_path it) (if wc then i else 0)") simp_all
  obtain im0 where im0: "nth_err (it_im0s it) (if wc then i else 0) = Some im0"
    using a p by (cases "nth_err (it_im0s it) (if wc then i else 0)") simp_all
  obtain r
    where r: "image_results cfg view si it p det (st\<lparr>seen := seen st + 1\<rparr>, im0) = Inr r"
    using a p im0
    by (cases "image_results cfg view si it p det (st\<lparr>seen := seen st + 1\<rparr>, im0)") simp_all
  from a p im0 r have "show_and_save cfg view si it i p (snd r) (fst r) = Inr st'"
    by simp
  with p im0 r that [of p im0 "fst r" "snd r"] show ?thesis by simp
qed

lemma image_results_registry_ok:
  assumes ok: "registry_ok st"
    and ir: "image_results cfg view si it p det (st, im0) = Inr (st', im')"
  shows "registry_ok st'"
proof (cases "det = []")
  case True
  with ir have "st' = st" by (simp add: image_results_def)
  with ok show ?thesis by simp
next
  case False
  with ir have "process_detections cfg view si p (txt_path_of cfg it p) det (st, im0) = Inr (st', im')"
    by (simp add: image_results_def)
  with ok show ?thesis by (rule process_detections_registry_ok)
qed

lemma show_and_save_registry_ok:
  assumes ok: "registry_ok st" and ss: "show_and_save cfg view si it i p im0 st = Inr st'"
  shows "registry_ok st'"
proof -
  let ?st1 = "if view then stream_results cfg p im0 st else st"
  from ok have ok1: "registry_ok ?st1" by (simp add: stream_results_registry_ok)
  show ?thesis
  proof (cases si)
    case True
    with ss have "save_results it i (save_path_of cfg p) im0 ?st1 = Inr st'"
      by (simp add: show_and_save_def Let_def)
    with ok1 show ?thesis by (rule save_results_registry_ok)
  next
    case False
    with ss have "st' = ?st1" by (simp add: show_and_save_def Let_def)
    with ok1 show ?thesis by simp
  qed
qed

lemma process_image_registry_ok:
  assumes ok: "registry_ok st" and pi: "process_image cfg wc view si it st idet = Inr st'"
  shows "registry_ok st'"
proof -
  obtain i det where idet: "idet = (i, det)" by (cases idet)
  from pi [unfolded idet] obtain p im0 st2 im1
    where ir: "image_results cfg view si it p det (st\<lparr>seen := seen st + 1\<rparr>, im0) = Inr (st2, im1)"
      and ss: "show_and_save cfg view si it i p im1 st2 = Inr st'"
    by (rule process_image_Inr)
  from ok have "registry_ok (st\<lparr>seen := seen st + 1\<rparr>)" by (simp add: registry_ok_seen)
  then have "registry_ok st2" using ir by (rule image_results_registry_ok)
  then show ?thesis using ss by (rule show_and_save_registry_ok)
qed

lemma process_batch_registry_ok:
  assumes "registry_ok st" and "process_batch cfg wc view si it idets st = Inr st'"
  shows "registry_ok st'"
  using assms
proof (induction idets arbitrary: st)
  case Nil
  then show ?case by simp
next
  case (Cons idet idets)
  from Cons.prems(2) obtain st1 where s1: "process_image cfg wc view si it st idet = Inr st1"
    and s2: "process_batch cfg wc view si it idets st1 = Inr st'"
    by (auto split: sum.splits)
  from Cons.prems(1) s1 have "registry_ok st1" by (rule process_image_registry_ok)
  then show ?case using s2 by (rule Cons.IH)
qed

lemma run_loop_registry_ok:
  assumes "registry_ok st" and "run_loop cfg wc view si its st = Inr st'"
  shows "registry_ok st'"
  using assms
proof (induction its arbitrary: st)
  case Nil
  then show ?case by simp
next
  case (Cons it its)
  from Cons.prems(2) obtain pred st1 where "it_pred it = Inr pred"
    and s1: "process_batch cfg wc view si it (enumerate 0 pred) st = Inr st1"
    and s2: "run_loop cfg wc view si its st1 = Inr st'"
    by (auto split: sum.splits)
  from Cons.prems(1) s1 have "registry_ok st1" by (rule process_batch_registry_ok)
  then show ?case using s2 by (rule Cons.IH)
qed

lemma initial_state_registry_ok: "registry_ok (initial_state bs csv0)"
  by (simp add: registry_ok_def initial_state_def open_writers_def held_once_def stored_held_def)

section \<open>The counters of one image\<close>


lemma open_writer_fields:
  assumes "open_writer vid_cap i sp im0 st = Inr st'"
  shows "seen st' = seen st \<and> gNum st' = gNum st \<and> csv_file st' = csv_file st"
  using assms by (rule open_writer_Inr) simp

lemma write_video_fields:
  assumes "write_video vid_cap i sp im0 st = Inr st'"
  shows "seen st' = seen st \<and> gNum st' = gNum st \<and> csv_file st' = csv_file st"
  using assms
proof (cases rule: write_video_Inr)
  case (reopened st1)
  with open_writer_fields [OF reopened(3)] show ?thesis by (simp add: log_event_def)
next
  case (same h)
  then show ?thesis by (simp add: log_event_def)
qed

lemma save_results_fields:
  assumes "save_results it i sp im0 st = Inr st'"
  shows "seen st' = seen st \<and> gNum st' = gNum st \<and> csv_file st' = csv_file st"
proof (cases "it_mode it = ImageMode")
  case True
  with assms show ?thesis by (auto simp: save_results_def log_event_def)
next
  case False
  with assms have "write_video (it_vid_cap it) i sp im0 st = Inr st'"
    by (simp add: save_results_def)
  then show ?thesis by (rule write_video_fields)
qed

lemma show_and_save_fields:
  assumes ss: "show_and_save cfg view si it i p im0 st = Inr st'"
  shows "seen st' = seen st \<and> gNum st' = gNum st \<and> csv_file st' = csv_file st"
proof -
  let ?st1 = "if view then stream_results cfg p im0 st else st"
  have f1: "seen ?st1 = seen st \<and> gNum ?st1 = gNum st \<and> csv_file ?st1 = csv_file st"
    by (simp add: stream_results_fields)
  show ?thesis
  proof (cases si)
    case True
    with ss have "save_results it i (save_path_of cfg p) im0 ?st1 = Inr st'"
      by (simp add: show_and_save_def Let_def)
    from save_results_fields [OF this] f1 show ?thesis by simp
  next
    case False
    with ss have "st' = ?st1" by (simp add: show_and_save_def Let_def)
    with f1 show ?thesis by simp
  qed
qed

lemma image_results_counts:
  assumes ir: "image_results cfg view si it p det (st, im0) = Inr (st', im')"
  shows "seen st' = seen st \<and> length (gNum st') = length (gNum st)
    \<and> list_all (\<lambda>d. cls d < length (gNum st) \<and> cls d < length (names cfg)) det
    \<and> (\<forall>c. gNum st' ! c = (if c \<in> cls ` set det then JStr (show_nat (count_class det c))
                            else gNum st ! c))"
proof (cases "det = []")
  case True
  with ir show ?thesis by (simp add: image_results_def)
next
  case False
  with ir have "process_detections cfg view si p (txt_path_of cfg it p) det (st, im0) = Inr (st', im')"
    by (simp add: image_results_def)
  then obtain g where g: "count_classes (names cfg) det (unique_classes det) (gNum st) = Inr g"
    and wr: "write_results cfg view si p (txt_path_of cfg it p) im0 (rev det) (st\<lparr>gNum := g\<rparr>, im0)
             = Inr (st', im')"
    by (rule process_detections_Inr)
  note c = count_classes_Inr [OF g]
  note w = write_results_Inr [OF wr]
  from c have "list_all (\<lambda>d. cls d < length (gNum st) \<and> cls d < length (names cfg)) det"
    by (auto simp: list_all_iff set_unique_classes)
  moreover from c w have "length (gNum st') = length (gNum st)" by simp
  moreover from w have "seen st' = seen st" by simp
  moreover from c w have "\<forall>c. gNum st' ! c =
      (if c \<in> cls ` set det then JStr (show_nat (count_class det c)) else gNum st ! c)"
    by (simp add: set_unique_classes)
  ultimately show ?thesis by blast
qed

lemma process_image_counts:
  assumes pi: "process_image cfg wc view si it st (i, det) = Inr st'"
  shows "seen st' = Suc (seen st) \<and> length (gNum st') = length (gNum st)
    \<and> list_all (\<lambda>d. cls d < length (gNum st) \<and> cls d < length (names cfg)) det
    \<and> (\<forall>c. gNum st' ! c = (if c \<in> cls ` set det then JStr (show_nat (count_class det c))
                            else gNum st ! c))"
proof -
  from pi obtain p im0 st2 im1
    where ir: "image_results cfg view si it p det (st\<lparr>seen := seen st + 1\<rparr>, im0) = Inr (st2, im1)"
      and ss: "show_and_save cfg view si it i p im1 st2 = Inr st'"
    by (rule process_image_Inr)
  from image_results_counts [OF ir] show_and_save_fields [OF ss] show ?thesis by simp
qed

section \<open>The CSV header and the class counts\<close>


text \<open>
  C1. The first call of \<^verbatim>\<open>write_to_csv\<close> in a fresh run directory should create
  \<^verbatim>\<open>predictions.csv\<close> with a header row before the data row. The code opens the file
  for appending, which creates it, and asks only afterwards whether it exists: on a fresh
  directory the file receives its data rows and never a header row.
\<close>

theorem first_csv_write_has_no_header:
  "write_to_csv None ''im.jpg'' ''goose'' ''0.91'' = Some [[''im.jpg'', ''goose'', ''0.91'']]
   \<and> map_sum id (csv_file \<circ> fst) (run goose_cfg photo_ds None)
       = Inr (Some [[''im.jpg'', ''egg'', ''0.77''], [''im.jpg'', ''goose'', ''0.91'']])"
  by code_simp





section \<open>The order of the exports\<close>


text \<open>
  C7. Within an image the detections are exported last first: the CSV rows, the label
  lines and crops, and the boxes drawn on the frame follow the reversed list of the
  detections, and the block succeeds whenever every class has a count entry and a name.
\<close>

theorem detections_exported_last_first:
  "(list_all (\<lambda>d. cls d < length (gNum st) \<and> cls d < length (names cfg)) det \<longrightarrow>
      (\<exists>r. process_detections cfg view save_img p txt_path det (st, im0) = Inr r))
   \<and> (\<forall>st' im'. process_detections cfg view save_img p txt_path det (st, im0) = Inr (st', im') \<longrightarrow>
         csv_file st' = (if save_csv cfg \<and> det \<noteq> []
                         then Some (csv_rows (csv_file st) @ map (csv_row cfg p) (rev det))
                         else csv_file st)
       \<and> trace st' = trace st @ concat (map (det_events cfg p txt_path im0) (rev det))
       \<and> drawn im' = drawn im0 @ (if save_img \<or> save_crop cfg \<or> view
                                   then map (overlay cfg) (rev det) else []))"
proof (rule conjI)
  show "list_all (\<lambda>d. cls d < length (gNum st) \<and> cls d < length (names cfg)) det \<longrightarrow>
      (\<exists>r. process_detections cfg view save_img p txt_path det (st, im0) = Inr r)"
    using process_detections_total by blast
next
  show "\<forall>st' im'. process_detections cfg view save_img p txt_path det (st, im0) = Inr (st', im') \<longrightarrow>
         csv_file st' = (if save_csv cfg \<and> det \<noteq> []
                         then Some (csv_rows (csv_file st) @ map (csv_row cfg p) (rev det))
                         else csv_file st)
       \<and> trace st' = trace st @ concat (map (det_events cfg p txt_path im0) (rev det))
       \<and> drawn im' = drawn im0 @ (if save_img \<or> save_crop cfg \<or> view
                                   then map (overlay cfg) (rev det) else [])"
  proof (intro allI impI)
    fix st' im'
    assume pd: "process_detections cfg view save_img p txt_path det (st, im0) = Inr (st', im')"
    then obtain g
      where wr: "write_results cfg view save_img p txt_path im0 (rev det) (st\<lparr>gNum := g\<rparr>, im0)
                 = Inr (st', im')"
      by (rule process_detections_Inr)
    from write_results_Inr [OF wr]
    show "csv_file st' = (if save_csv cfg \<and> det \<noteq> []
                         then Some (csv_rows (csv_file st) @ map (csv_row cfg p) (rev det))
                         else csv_file st)
       \<and> trace st' = trace st @ concat (map (det_events cfg p txt_path im0) (rev det))
       \<and> drawn im' = drawn im0 @ (if save_img \<or> save_crop cfg \<or> view
                                   then map (overlay cfg) (rev det) else [])"
      by simp
  qed
qed

theorem detections_exported_last_first_witness:
  "list_all (\<lambda>d. cls d < length (gNum (initial_state 1 None)) \<and> cls d < length (names goose_cfg))
     [goose_det, egg_det]
   \<and> (\<exists>st' im'. process_detections goose_cfg False True ''data/im.jpg''
                    ''runs/detect/exp/labels/im'' [goose_det, egg_det] (initial_state 1 None, photo)
                  = Inr (st', im')
         \<and> csv_file st' = Some [[''im.jpg'', ''egg'', ''0.77''], [''im.jpg'', ''goose'', ''0.91'']]
         \<and> trace st' = [TxtWrite ''runs/detect/exp/labels/im.txt''
                           [1, 1 / 16, 5 / 48, 1 / 32, 1 / 24, 77 / 100],
                         TxtWrite ''runs/detect/exp/labels/im.txt''
                           [0, 3 / 32, 1 / 4, 5 / 32, 5 / 12, 91 / 100]]
         \<and> drawn im' = [((30, 40, 50, 60), Some ''egg 0.77'', 1),
                        ((10, 20, 110, 220), Some ''goose 0.91'', 0)])"
proof -
  let ?st = "initial_state 1 None" and ?det = "[goose_det, egg_det]"
  let ?p = "''data/im.jpg''" and ?tp = "''runs/detect/exp/labels/im''"
  note inst = detections_exported_last_first [of ?st goose_cfg ?det False True ?p ?tp photo]
  have h: "list_all (\<lambda>d. cls d < length (gNum ?st) \<and> cls d < length (names goose_cfg)) ?det"
    by code_simp
  with inst obtain r where "process_detections goose_cfg False True ?p ?tp ?det (?st, photo) = Inr r"
    by blast
  then obtain st' im'
    where pd: "process_detections goose_cfg False True ?p ?tp ?det (?st, photo) = Inr (st', im')"
    by (cases r) simp
  have c: "(if save_csv goose_cfg \<and> ?det \<noteq> []
            then Some (csv_rows (csv_file ?st) @ map (csv_row goose_cfg ?p) (rev ?det))
            else csv_file ?st)
           = Some [[''im.jpg'', ''egg'', ''0.77''], [''im.jpg'', ''goose'', ''0.91'']]"
    by code_simp
  have t: "trace ?st @ concat (map (det_events goose_cfg ?p ?tp photo) (rev ?det))
           = [TxtWrite ''runs/detect/exp/labels/im.txt'' [1, 1 / 16, 5 / 48, 1 / 32, 1 / 24, 77 / 100],
              TxtWrite ''runs/detect/exp/labels/im.txt'' [0, 3 / 32, 1 / 4, 5 / 32, 5 / 12, 91 / 100]]"
    by code_simp
  have d: "drawn photo @ (if True \<or> save_crop goose_cfg \<or> False
                          then map (overlay goose_cfg) (rev ?det) else [])
           = [((30, 40, 50, 60), Some ''egg 0.77'', 1), ((10, 20, 110, 220), Some ''goose 0.91'', 0)]"
    by code_simp
  from inst pd have "csv_file st' = (if save_csv goose_cfg \<and> ?det \<noteq> []
            then Some (csv_rows (csv_file ?st) @ map (csv_row goose_cfg ?p) (rev ?det))
            else csv_file ?st)"
    and "trace st' = trace ?st @ concat (map (det_events goose_cfg ?p ?tp photo) (rev ?det))"
    and "drawn im' = drawn photo @ (if True \<or> save_crop goose_cfg \<or> False
                          then map (overlay goose_cfg) (rev ?det) else [])"
    by blast+
  with c t d pd h show ?thesis by simp
qed

section \<open>The counters along the loop\<close>


lemma process_batch_counts:
  assumes "process_batch cfg wc view si it idets st = Inr st'"
  shows "seen st' = seen st + length idets \<and> length (gNum st') = length (gNum st)
    \<and> (\<forall>c < length (gNum st).
          if batch_has c (map snd idets) then (\<exists>n>0. gNum st' ! c = JStr (show_nat n))
          else gNum st' ! c = gNum st ! c)"
  using assms
proof (induction idets arbitrary: st)
  case Nil
  then show ?case by (simp add: batch_has_def)
next
  case (Cons idet idets)
  obtain i det where idet: "idet = (i, det)" by (cases idet)
  from Cons.prems obtain st1 where s1: "process_image cfg wc view si it st (i, det) = Inr st1"
    and s2: "process_batch cfg wc view si it idets st1 = Inr st'"
    by (auto simp: idet split: sum.splits)
  note a = process_image_counts [OF s1]
  note b = Cons.IH [OF s2]
  have "\<forall>c < length (gNum st).
          if batch_has c (map snd (idet # idets)) then (\<exists>n>0. gNum st' ! c = JStr (show_nat n))
          else gNum st' ! c = gNum st ! c"
  proof (intro allI impI)
    fix c
    assume c: "c < length (gNum st)"
    with a have c1: "c < length (gNum st1)" by simp
    show "if batch_has c (map snd (idet # idets)) then (\<exists>n>0. gNum st' ! c = JStr (show_nat n))
          else gNum st' ! c = gNum st ! c"
    proof (cases "batch_has c (map snd idets)")
      case True
      with b c1 have "\<exists>n>0. gNum st' ! c = JStr (show_nat n)" by simp
      moreover from True have "batch_has c (map snd (idet # idets))" by (simp add: batch_has_def)
      ultimately show ?thesis by simp
    next
      case False
      with b c1 have e: "gNum st' ! c = gNum st1 ! c" by simp
      show ?thesis
      proof (cases "c \<in> cls ` set det")
        case True
        then have "batch_has c (map snd (idet # idets))"
          by (auto simp: batch_has_def idet list_ex_iff)
        moreover from a True e have "gNum st' ! c = JStr (show_nat (count_class det c))" by simp
        moreover from True have "0 < count_class det c" by (rule count_class_pos)
        ultimately show ?thesis by auto
      next
        case nin: False
        with False have "\<not> batch_has c (map snd (idet # idets))"
          by (auto simp: batch_has_def idet list_ex_iff)
        moreover from a nin e have "gNum st' ! c = gNum st ! c" by simp
        ultimately show ?thesis by simp
      qed
    qed
  qed
  with a b show ?case by simp
qed

lemma observed_Cons:
  "observed c (it # its) = (batch_has c (images_of it) \<or> observed c its)"
  by (simp add: observed_def batch_has_def)

lemma images_total_Cons:
  "images_total (it # its) = length (images_of it) + images_total its"
  by (simp add: images_total_def)

lemma run_loop_counts:
  assumes "run_loop cfg wc view si its st = Inr st'"
  shows "seen st' = seen st + images_total its \<and> length (gNum st') = length (gNum st)
    \<and> (\<forall>c < length (gNum st).
          if observed c its then (\<exists>n>0. gNum st' ! c = JStr (show_nat n))
          else gNum st' ! c = gNum st ! c)"
  using assms
proof (induction its arbitrary: st)
  case Nil
  then show ?case by (simp add: observed_def images_total_def)
next
  case (Cons it its)
  from Cons.prems obtain pred st1 where pred: "it_pred it = Inr pred"
    and s1: "process_batch cfg wc view si it (enumerate 0 pred) st = Inr st1"
    and s2: "run_loop cfg wc view si its st1 = Inr st'"
    by (auto split: sum.splits)
  have io: "images_of it = pred" by (simp add: images_of_def pred)
  have ms: "map snd (enumerate 0 pred) = pred" by simp
  note a = process_batch_counts [OF s1, unfolded ms]
  note b = Cons.IH [OF s2]
  have "\<forall>c < length (gNum st).
          if observed c (it # its) then (\<exists>n>0. gNum st' ! c = JStr (show_nat n))
          else gNum st' ! c = gNum st ! c"
  proof (intro allI impI)
    fix c
    assume c: "c < length (gNum st)"
    with a have c1: "c < length (gNum st1)" by simp
    show "if observed c (it # its) then (\<exists>n>0. gNum st' ! c = JStr (show_nat n))
          else gNum st' ! c = gNum st ! c"
    proof (cases "observed c its")
      case True
      with b c1 show ?thesis by (simp add: observed_Cons)
    next
      case False
      with b c1 have e: "gNum st' ! c = gNum st1 ! c" by simp
      from a c have "if batch_has c pred then (\<exists>n>0. gNum st1 ! c = JStr (show_nat n))
          else gNum st1 ! c = gNum st ! c" by simp
      with False e show ?thesis by (simp add: observed_Cons io)
    qed
  qed
  with a b show ?case by (simp add: images_total_Cons io)
qed

section \<open>The end of the run\<close>


lemma run_Inr:
  assumes "run cfg ds csv0 = Inr (st, r)"
  obtains "run_frames cfg ds csv0 = Inr st" and "seen st \<noteq> 0"
    and "r = \<lparr>imagePath = abspath (cwd cfg) (save_dir cfg), counts = gNum st\<rparr>"
  using assms by (auto simp: run_def split: sum.splits if_splits)

lemma run_frames_Inr:
  assumes "run_frames cfg ds csv0 = Inr st"
  obtains wc view si bs
  where "run_loop cfg wc view si (items ds) (initial_state bs csv0) = Inr st"
  using assms by (simp add: run_frames_def Let_def)

text \<open>
  C10. A data loader that yields no frame leaves \<^verbatim>\<open>seen\<close> at zero, and the run raises
  the division by zero of the per-image speeds instead of printing the summary; a summary
  is printed only by a run that processed at least one image.
\<close>

theorem no_image_no_summary:
  "run cfg (ds\<lparr>items := []\<rparr>) csv0 = Inl ZeroDivisionError
   \<and> (\<forall>st r. run cfg ds csv0 = Inr (st, r) \<longrightarrow>
         0 < images_total (items ds) \<and> seen st = images_total (items ds))"
proof (rule conjI)
  show "run cfg (ds\<lparr>items := []\<rparr>) csv0 = Inl ZeroDivisionError"
    by (simp add: run_def run_frames_def Let_def initial_state_def)
next
  show "\<forall>st r. run cfg ds csv0 = Inr (st, r) \<longrightarrow>
         0 < images_total (items ds) \<and> seen st = images_total (items ds)"
  proof (intro allI impI)
    fix st r
    assume "run cfg ds csv0 = Inr (st, r)"
    then have rf: "run_frames cfg ds csv0 = Inr st" and nz: "seen st \<noteq> 0"
      by (auto elim: run_Inr)
    from rf obtain wc view si bs
      where "run_loop cfg wc view si (items ds) (initial_state bs csv0) = Inr st"
      by (rule run_frames_Inr)
    from run_loop_counts [OF this] have "seen st = images_total (items ds)"
      by (simp add: initial_state_def)
    with nz show "0 < images_total (items ds) \<and> seen st = images_total (items ds)" by simp
  qed
qed

theorem no_image_no_summary_witness:
  "run goose_cfg (photo_ds\<lparr>items := []\<rparr>) None = Inl ZeroDivisionError
   \<and> (\<exists>st r. run goose_cfg photo_ds None = Inr (st, r) \<and> seen st = 1
         \<and> images_total (items photo_ds) = 1)"
proof -
  have "\<not> isl (run goose_cfg photo_ds None)" by code_simp
  then obtain st r where ok: "run goose_cfg photo_ds None = Inr (st, r)"
    by (cases "run goose_cfg photo_ds None") auto
  have one: "images_total (items photo_ds) = 1" by code_simp
  from no_image_no_summary [of goose_cfg photo_ds None] ok one
  have "run goose_cfg (photo_ds\<lparr>items := []\<rparr>) None = Inl ZeroDivisionError" and "seen st = 1"
    by auto
  with ok one show ?thesis by blast
qed

lemma normpath_rooted:
  assumes "startswith p ''/''"
  shows "startswith (normpath p) ''/''"
proof -
  from assms have ne: "p \<noteq> []" by (auto simp: startswith_def)
  show ?thesis
    using assms ne by (simp add: normpath_def Let_def startswith_def)
qed

lemma abspath_rooted:
  assumes "startswith cur ''/''"
  shows "startswith (abspath cur p) ''/''"
proof (cases "startswith p ''/''")
  case True
  then show ?thesis by (simp add: abspath_def normpath_rooted)
next
  case False
  from assms obtain rest where cur: "cur = CHR ''/'' # rest"
    by (cases cur) (auto simp: startswith_def)
  have "startswith (cur @ q) ''/''" for q
    by (simp add: cur startswith_def)
  then show ?thesis
    using False by (simp add: abspath_def normpath_rooted)
qed

text \<open>
  C2, as amended. The record a run prints holds the absolute path of the output directory
  and a list of counts that always has three entries, whatever the number of classes of
  the model, in the order of the class indices: the integer zero for a class index below
  three that no image of the run showed, and the decimal string of a positive count for
  one that an image showed.
\<close>

theorem summary_has_three_counts:
  "\<forall>st r. run cfg ds csv0 = Inr (st, r) \<longrightarrow>
     imagePath r = abspath (cwd cfg) (save_dir cfg)
     \<and> (startswith (cwd cfg) ''/'' \<longrightarrow> startswith (imagePath r) ''/'')
     \<and> length (counts r) = 3
     \<and> (\<forall>c < 3. if observed c (items ds) then (\<exists>n>0. counts r ! c = JStr (show_nat n))
                 else counts r ! c = JInt 0)"
proof (intro allI impI)
  fix st r
  assume "run cfg ds csv0 = Inr (st, r)"
  then have rf: "run_frames cfg ds csv0 = Inr st"
    and r: "r = \<lparr>imagePath = abspath (cwd cfg) (save_dir cfg), counts = gNum st\<rparr>"
    by (auto elim: run_Inr)
  from rf obtain wc view si bs
    where "run_loop cfg wc view si (items ds) (initial_state bs csv0) = Inr st"
    by (rule run_frames_Inr)
  note c = run_loop_counts [OF this]
  have g0: "gNum (initial_state bs csv0) = [JInt 0, JInt 0, JInt 0]"
    by (simp add: initial_state_def)
  from c g0 have len: "length (gNum st) = 3" by simp
  have ent: "\<forall>c < 3. if observed c (items ds) then (\<exists>n>0. gNum st ! c = JStr (show_nat n))
                 else gNum st ! c = JInt 0"
  proof (intro allI impI)
    fix k :: nat
    assume k: "k < 3"
    then have "[JInt 0, JInt 0, JInt 0] ! k = JInt 0"
      by (auto simp: less_Suc_eq numeral_3_eq_3)
    moreover from c g0 k
    have "if observed k (items ds) then (\<exists>n>0. gNum st ! k = JStr (show_nat n))
          else gNum st ! k = [JInt 0, JInt 0, JInt 0] ! k"
      by simp
    ultimately show "if observed k (items ds) then (\<exists>n>0. gNum st ! k = JStr (show_nat n))
                 else gNum st ! k = JInt 0"
      by simp
  qed
  show "imagePath r = abspath (cwd cfg) (save_dir cfg)
     \<and> (startswith (cwd cfg) ''/'' \<longrightarrow> startswith (imagePath r) ''/'')
     \<and> length (counts r) = 3
     \<and> (\<forall>c < 3. if observed c (items ds) then (\<exists>n>0. counts r ! c = JStr (show_nat n))
                 else counts r ! c = JInt 0)"
    using len ent by (simp add: r abspath_rooted)
qed

theorem summary_has_three_counts_witness:
  "startswith (cwd goose_cfg) ''/''
   \<and> (\<exists>st r. run goose_cfg photo_ds None = Inr (st, r)
         \<and> imagePath r = ''/work/runs/detect/exp'' \<and> startswith (imagePath r) ''/''
         \<and> length (counts r) = 3 \<and> counts r ! 2 = JInt 0)"
proof -
  have "\<not> isl (run goose_cfg photo_ds None)" by code_simp
  then obtain st r where ok: "run goose_cfg photo_ds None = Inr (st, r)"
    by (cases "run goose_cfg photo_ds None") auto
  have abs: "startswith (cwd goose_cfg) ''/''" by code_simp
  have path: "abspath (cwd goose_cfg) (save_dir goose_cfg) = ''/work/runs/detect/exp''"
    by code_simp
  have unseen: "\<not> observed 2 (items photo_ds)" by code_simp
  from summary_has_three_counts [of goose_cfg photo_ds None] ok
  have a: "imagePath r = abspath (cwd goose_cfg) (save_dir goose_cfg)"
    and b: "startswith (cwd goose_cfg) ''/'' \<longrightarrow> startswith (imagePath r) ''/''"
    and c: "length (counts r) = 3"
    and d: "\<forall>c < 3. if observed c (items photo_ds) then (\<exists>n>0. counts r ! c = JStr (show_nat n))
                 else counts r ! c = JInt 0"
    by blast+
  from d unseen have "counts r ! 2 = JInt 0" by simp
  with ok abs path a b c show ?thesis by simp
qed

theorem summary_counts_counterexample:
  "map_sum id snd (run goose_cfg photo_ds None)
     = Inr \<lparr>imagePath = ''/work/runs/detect/exp'', counts = [JStr ''1'', JStr ''1'', JInt 0]\<rparr>
   \<and> length (names goose_cfg) = 2"
  by code_simp

text \<open>
  C3, as amended. The run releases a writer only where the stored path of its stream
  changes, and nothing after the loop releases one: when the run returns, the writers
  still open are exactly those \<^verbatim>\<open>vid_writer\<close> holds, and every stream that has a
  stored path, which is every stream that wrote a video frame, holds an open writer.
\<close>

theorem writers_stay_open_at_return:
  "\<forall>st r. run cfg ds csv0 = Inr (st, r) \<longrightarrow>
     open_writers (trace st) = {h. Some h \<in> set (vid_writer st)}
     \<and> (\<forall>i < length (vid_path st). vid_path st ! i \<noteq> None \<longrightarrow>
           (\<exists>h. vid_writer st ! i = Some h \<and> h \<in> open_writers (trace st)))"
proof (intro allI impI)
  fix st r
  assume "run cfg ds csv0 = Inr (st, r)"
  then have rf: "run_frames cfg ds csv0 = Inr st"
    by (auto elim: run_Inr)
  from rf obtain wc view si bs
    where "run_loop cfg wc view si (items ds) (initial_state bs csv0) = Inr st"
    by (rule run_frames_Inr)
  with initial_state_registry_ok have ok: "registry_ok st"
    by (rule run_loop_registry_ok)
  then have opn: "open_writers (trace st) = {h. Some h \<in> set (vid_writer st)}"
    and len: "length (vid_path st) = length (vid_writer st)"
    and sh: "stored_held (vid_path st) (vid_writer st)"
    by (simp_all add: registry_ok_def)
  have "\<forall>i < length (vid_path st). vid_path st ! i \<noteq> None \<longrightarrow>
           (\<exists>h. vid_writer st ! i = Some h \<and> h \<in> open_writers (trace st))"
  proof (intro allI impI)
    fix i
    assume i: "i < length (vid_path st)" and nn: "vid_path st ! i \<noteq> None"
    with sh have "vid_writer st ! i \<noteq> None" unfolding stored_held_def by blast
    then obtain h where h: "vid_writer st ! i = Some h" by auto
    with i len have "Some h \<in> set (vid_writer st)" by (metis nth_mem)
    with opn h show "\<exists>h. vid_writer st ! i = Some h \<and> h \<in> open_writers (trace st)" by simp
  qed
  with opn show "open_writers (trace st) = {h. Some h \<in> set (vid_writer st)}
     \<and> (\<forall>i < length (vid_path st). vid_path st ! i \<noteq> None \<longrightarrow>
           (\<exists>h. vid_writer st ! i = Some h \<and> h \<in> open_writers (trace st)))"
    by simp
qed

theorem writers_stay_open_at_return_witness:
  "\<exists>st r. run video_cfg video_ds None = Inr (st, r)
     \<and> vid_path st = [Some ''runs/detect/exp/vid.avi''] \<and> vid_writer st = [Some 0]
     \<and> open_writers (trace st) = {0}"
proof -
  have ev: "map_sum id (\<lambda>sr. (vid_path (fst sr), vid_writer (fst sr))) (run video_cfg video_ds None)
            = Inr ([Some ''runs/detect/exp/vid.avi''], [Some 0])"
    by code_simp
  then obtain st r where ok: "run video_cfg video_ds None = Inr (st, r)"
    and vp: "vid_path st = [Some ''runs/detect/exp/vid.avi'']" and vw: "vid_writer st = [Some 0]"
    by (cases "run video_cfg video_ds None") auto
  from writers_stay_open_at_return [of video_cfg video_ds None] ok
  have "open_writers (trace st) = {h. Some h \<in> set (vid_writer st)}" by blast
  with vw have "open_writers (trace st) = {0}" by auto
  with ok vp vw show ?thesis by blast
qed

theorem writer_open_at_return_counterexample:
  "map_sum id (\<lambda>sr. open_writers (trace (fst sr))) (run video_cfg video_ds None) = Inr {0}"
  by code_simp

section \<open>The video branch and the failure policy\<close>



lemma write_video_same_path:
  assumes "i < length (vid_path st)" and "i < length (vid_writer st)"
    and "vid_path st ! i = Some sp" and "vid_writer st ! i = Some h"
  shows "write_video vid_cap i sp im0 st = Inr (log_event (WriterWrite h im0) st)"
  using assms by (simp add: write_video_def nth_err_def)

lemma write_video_new_path:
  assumes i: "i < length (vid_path st)" and j: "i < length (vid_writer st)"
    and ne: "vid_path st ! i \<noteq> Some sp" and mp4: "with_suffix sp ''.mp4'' = Inr mp4"
  shows "write_video vid_cap i sp im0 st =
     Inr (st\<lparr>vid_path := (vid_path st)[i := Some sp],
             vid_writer := (vid_writer st)[i := Some (next_writer st)],
             next_writer := Suc (next_writer st),
             trace := trace st @ release_old (vid_writer st ! i)
                      @ [WriterOpen (next_writer st) mp4 (fst (writer_params vid_cap im0))
                           (fst (snd (writer_params vid_cap im0)))
                           (snd (snd (writer_params vid_cap im0))),
                         WriterWrite (next_writer st) im0]\<rparr>)"
  using i j ne open_writer_total [OF j mp4, of vid_cap im0]
  by (simp add: write_video_def nth_err_def log_event_def)

lemma write_frames_same_path:
  assumes "i < length (vid_path st)" and "i < length (vid_writer st)"
    and "vid_path st ! i = Some sp" and "vid_writer st ! i = Some h"
  shows "write_frames i sp fs st
         = Inr (st\<lparr>trace := trace st @ map (\<lambda>f. WriterWrite h (snd f)) fs\<rparr>)"
  using assms
proof (induction fs arbitrary: st)
  case Nil
  then show ?case by simp
next
  case (Cons f fs)
  let ?st1 = "log_event (WriterWrite h (snd f)) st"
  from Cons.prems have s1: "write_video (fst f) i sp (snd f) st = Inr ?st1"
    by (rule write_video_same_path)
  from Cons.prems have "write_frames i sp fs ?st1
      = Inr (?st1\<lparr>trace := trace ?st1 @ map (\<lambda>f. WriterWrite h (snd f)) fs\<rparr>)"
    by (intro Cons.IH) (simp_all add: log_event_def)
  with s1 show ?case by (simp add: log_event_def)
qed

text \<open>
  C5. A stream whose stored path differs from the path of its next frames gets exactly one
  writer for any number of consecutive frames with that path: the writer it held, if any,
  is released first, the new writer is opened on the \<^verbatim>\<open>.mp4\<close> path with the frame rate
  and size of the capture handle of the first frame, or with 30 frames per second and the
  size of the annotated frame when there is no handle, and every frame is written to it.
\<close>

theorem one_writer_for_an_unchanged_path:
  assumes "i < length (vid_path st)" and "i < length (vid_writer st)"
    and "vid_path st ! i \<noteq> Some save_path"
    and "with_suffix save_path ''.mp4'' = Inr mp4"
  shows "\<exists>st'. write_frames i save_path ((vid_cap, im0) # frames) st = Inr st'
     \<and> trace st' = trace st @ release_old (vid_writer st ! i)
          @ [case vid_cap of
               Some cap \<Rightarrow> WriterOpen (next_writer st) mp4 (CAP_PROP_FPS cap)
                             (py_int (CAP_PROP_FRAME_WIDTH cap)) (py_int (CAP_PROP_FRAME_HEIGHT cap))
             | None \<Rightarrow> WriterOpen (next_writer st) mp4 30 (int (width im0)) (int (height im0))]
          @ map (\<lambda>f. WriterWrite (next_writer st) (snd f)) ((vid_cap, im0) # frames)
     \<and> length (filter is_open_event (drop (length (trace st)) (trace st'))) = 1
     \<and> vid_path st' ! i = Some save_path \<and> vid_writer st' ! i = Some (next_writer st)"
proof -
  let ?n = "next_writer st"
  let ?open = "WriterOpen ?n mp4 (fst (writer_params vid_cap im0))
                 (fst (snd (writer_params vid_cap im0))) (snd (snd (writer_params vid_cap im0)))"
  let ?st1 = "st\<lparr>vid_path := (vid_path st)[i := Some save_path],
                 vid_writer := (vid_writer st)[i := Some ?n],
                 next_writer := Suc ?n,
                 trace := trace st @ release_old (vid_writer st ! i)
                          @ [?open, WriterWrite ?n im0]\<rparr>"
  let ?st' = "?st1\<lparr>trace := trace ?st1 @ map (\<lambda>f. WriterWrite ?n (snd f)) frames\<rparr>"
  have first: "write_video vid_cap i save_path im0 st = Inr ?st1"
    using assms by (rule write_video_new_path)
  have rest: "write_frames i save_path frames ?st1 = Inr ?st'"
    using assms(1,2) by (intro write_frames_same_path) simp_all
  have run: "write_frames i save_path ((vid_cap, im0) # frames) st = Inr ?st'"
    using first rest by simp
  have op: "?open = (case vid_cap of
               Some cap \<Rightarrow> WriterOpen ?n mp4 (CAP_PROP_FPS cap)
                             (py_int (CAP_PROP_FRAME_WIDTH cap)) (py_int (CAP_PROP_FRAME_HEIGHT cap))
             | None \<Rightarrow> WriterOpen ?n mp4 30 (int (width im0)) (int (height im0)))"
    by (simp add: writer_params_def split: option.splits)
  have tr: "trace ?st' = trace st @ release_old (vid_writer st ! i) @ [?open]
          @ map (\<lambda>f. WriterWrite ?n (snd f)) ((vid_cap, im0) # frames)"
    by simp
  have nw: "filter is_open_event (map (\<lambda>f. WriterWrite ?n (snd f)) fs) = []" for fs
    by (induction fs) (simp_all add: is_open_event_def)
  have nr: "filter is_open_event (release_old old) = []" for old
    by (cases old) (simp_all add: release_old_def is_open_event_def)
  have one: "length (filter is_open_event (drop (length (trace st)) (trace ?st'))) = 1"
    unfolding tr by (simp add: nw nr is_open_event_def)
  have vp: "vid_path ?st' ! i = Some save_path" using assms(1) by simp
  have vw: "vid_writer ?st' ! i = Some ?n" using assms(2) by simp
  from run tr one vp vw show ?thesis
    unfolding op by blast
qed


theorem one_writer_for_an_unchanged_path_witness:
  "0 < length (vid_path busy_state) \<and> 0 < length (vid_writer busy_state)
   \<and> vid_path busy_state ! 0 \<noteq> Some ''runs/detect/exp/vid.avi''
   \<and> with_suffix ''runs/detect/exp/vid.avi'' ''.mp4'' = Inr ''runs/detect/exp/vid.mp4''
   \<and> (\<exists>st'. write_frames 0 ''runs/detect/exp/vid.avi''
                [(None, photo), (Some video_cap, photo\<lparr>pixels := 8\<rparr>)] busy_state = Inr st'
         \<and> trace st' = [WriterOpen 0 ''runs/detect/exp/old.mp4'' 25 640 480,
                         WriterRelease 0,
                         WriterOpen 1 ''runs/detect/exp/vid.mp4'' 30 640 480,
                         WriterWrite 1 photo,
                         WriterWrite 1 (photo\<lparr>pixels := 8\<rparr>)]
         \<and> vid_writer st' ! 0 = Some 1)"
proof -
  let ?sp = "''runs/detect/exp/vid.avi''"
  let ?fs = "[(Some video_cap, photo\<lparr>pixels := 8\<rparr>)]"
  have h1: "0 < length (vid_path busy_state)" by code_simp
  have h2: "0 < length (vid_writer busy_state)" by code_simp
  have h3: "vid_path busy_state ! 0 \<noteq> Some ?sp" by code_simp
  have h4: "with_suffix ?sp ''.mp4'' = Inr ''runs/detect/exp/vid.mp4''" by code_simp
  have t: "trace busy_state @ release_old (vid_writer busy_state ! 0)
          @ [case None of
               Some cap \<Rightarrow> WriterOpen (next_writer busy_state) ''runs/detect/exp/vid.mp4''
                             (CAP_PROP_FPS cap) (py_int (CAP_PROP_FRAME_WIDTH cap))
                             (py_int (CAP_PROP_FRAME_HEIGHT cap))
             | None \<Rightarrow> WriterOpen (next_writer busy_state) ''runs/detect/exp/vid.mp4'' 30
                         (int (width photo)) (int (height photo))]
          @ map (\<lambda>f. WriterWrite (next_writer busy_state) (snd f)) ((None, photo) # ?fs)
        = [WriterOpen 0 ''runs/detect/exp/old.mp4'' 25 640 480,
           WriterRelease 0,
           WriterOpen 1 ''runs/detect/exp/vid.mp4'' 30 640 480,
           WriterWrite 1 photo,
           WriterWrite 1 (photo\<lparr>pixels := 8\<rparr>)]"
    by code_simp
  have n: "next_writer busy_state = 1" by code_simp
  from one_writer_for_an_unchanged_path [OF h1 h2 h3 h4, of None photo ?fs] t n
  have "\<exists>st'. write_frames 0 ?sp ((None, photo) # ?fs) busy_state = Inr st'
         \<and> trace st' = [WriterOpen 0 ''runs/detect/exp/old.mp4'' 25 640 480,
                         WriterRelease 0,
                         WriterOpen 1 ''runs/detect/exp/vid.mp4'' 30 640 480,
                         WriterWrite 1 photo,
                         WriterWrite 1 (photo\<lparr>pixels := 8\<rparr>)]
         \<and> vid_writer st' ! 0 = Some 1"
    by auto
  with h1 h2 h3 h4 show ?thesis by blast
qed








end
